theory Spec2Isabelle
  imports Main "HOL-Library.Word" "HOL-Library.DAList" "HOL-Library.FSet" "HOL-Library.Multiset"
begin

section \<open>The agreement instance of dexon-consensus-core (core/agreement.go)\<close>

text \<open>
  A shallow embedding of \<^verbatim>\<open>core/agreement.go\<close>: the round state
  (\<^verbatim>\<open>agreementData\<close>), the instance (\<^verbatim>\<open>agreement\<close>) and the operations
  \<^verbatim>\<open>restart\<close>, \<^verbatim>\<open>stop\<close>, \<^verbatim>\<open>processVote\<close>, \<^verbatim>\<open>processBlock\<close>,
  \<^verbatim>\<open>done\<close>, \<^verbatim>\<open>countVoteNoLock\<close> and \<^verbatim>\<open>setPeriod\<close>.

  The mutexes are not modelled: every operation is one atomic step on the state.
  What the operations do to the outside world is kept in the state: the calls to
  the receiver are appended to the log \<open>recv\<close>, and the one-slot channel
  \<^verbatim>\<open>fastForward\<close> is an optional value.
\<close>

subsection \<open>Identifiers and messages\<close>

type_synonym hash = "256 word"     \<comment> \<open>\<^verbatim>\<open>common.Hash\<close>, 32 bytes\<close>
type_synonym nodeID = "256 word"   \<comment> \<open>\<^verbatim>\<open>types.NodeID\<close>, a wrapped hash\<close>
type_synonym time = int            \<comment> \<open>\<^verbatim>\<open>time.Time\<close>, an instant in nanoseconds\<close>

text \<open>Modelled from the spec: the package \<^verbatim>\<open>types\<close> is not part of the sources;
  the spec gives \<^verbatim>\<open>Position{chainID: uint32, height: uint64}\<close>.\<close>

record position =
  chainID :: "32 word"
  height :: "64 word"

text \<open>Modelled from the spec: \<^verbatim>\<open>VoteType\<close> with the three types the code names;
  \<^verbatim>\<open>types.MaxVoteType\<close>, the length of a vote list map (line 59), is their number.
  A vote whose type is not below \<^verbatim>\<open>MaxVoteType\<close> takes the index expressions of lines 268
  and 318 out of range. Such a vote is not a value of the type \<open>vote\<close> below: every statement
  about \<^verbatim>\<open>processVote\<close> is about votes of type Init, PreCommit or Commit.\<close>

datatype voteType = VoteInit | VotePreCom | VoteCom

text \<open>Modelled from the spec: \<^verbatim>\<open>Vote{proposerID, position, period, type, blockHash,
  signature}\<close> and \<^verbatim>\<open>Block{proposerID, position, hash}\<close>.\<close>

record vote =
  ProposerID :: nodeID
  Position :: position
  Period :: "64 word"
  Type :: voteType
  BlockHash :: hash
  Signature :: nat

record block =
  BlockProposerID :: nodeID
  BlockPosition :: position
  Hash :: hash

datatype error =
    ErrNotInNotarySet
  | ErrIncorrectVoteSignature
  | ErrFork nodeID hash hash
  | ErrForkVote nodeID vote vote
  | ErrExternal nat   \<comment> \<open>an error of a collaborator, passed on unchanged\<close>

subsection \<open>Go maps and their iteration order\<close>

text \<open>
  A Go map that the code iterates over or measures with \<^verbatim>\<open>len\<close> is an association
  list with distinct keys (\<^typ>\<open>('k, 'v) alist\<close>); a map that is only read and written
  by key is a HOL map. The order in which \<^verbatim>\<open>range\<close> visits a map is chosen by the
  Go runtime: \<open>goRange pref xs\<close> visits first the keys that \<open>pref\<close> lists, in the
  order of \<open>pref\<close>, and then the other entries. Every order of the entries is
  \<open>goRange pref xs\<close> for some \<open>pref\<close>, and \<open>pref\<close> is an argument of each operation
  that iterates.
\<close>

definition goRange :: "'k list \<Rightarrow> ('k \<times> 'v) list \<Rightarrow> ('k \<times> 'v) list" where
  "goRange pref xs =
     concat (map (\<lambda>k. filter (\<lambda>kv. fst kv = k) xs) (remdups pref))
     @ filter (\<lambda>kv. fst kv \<notin> set pref) xs"

record iterOrder =
  hashOrder :: "hash list"                  \<comment> \<open>for the candidates of \<^verbatim>\<open>countVoteNoLock\<close>\<close>
  nodeOrder :: "voteType \<Rightarrow> nodeID list"    \<comment> \<open>for the vote maps of \<^verbatim>\<open>addPullBlocks\<close>\<close>

subsection \<open>The round state and the instance\<close>

type_synonym voteMap = "(nodeID, vote) alist"
type_synonym voteListMap = "voteType \<Rightarrow> voteMap"

definition newVoteListMap :: voteListMap where
  "newVoteListMap = (\<lambda>_. DAList.empty)"

text \<open>The calls made to the \<^verbatim>\<open>agreementReceiver\<close>, in the order they are made.\<close>

datatype recvEvent = ConfirmBlock hash voteMap | PullBlocks "hash list"

text \<open>The state object of the instance: only its constructors appear in this file.\<close>

datatype agreementState = InitialState | PreCommitState

record 'l agreementData =
  recv :: "recvEvent list"
  ID :: nodeID
  leader :: 'l
  lockValue :: hash
  lockRound :: "64 word"
  period :: "64 word"
  requiredVote :: int
  votes :: "64 word \<rightharpoonup> voteListMap"
  blocks :: "nodeID \<rightharpoonup> block"

record 'l agreement =
  state :: agreementState
  data :: "'l agreementData"
  aID :: position
  notarySet :: "nodeID fset"
  hasOutput :: bool
  pendingBlock :: "(block \<times> time) list"
  pendingVote :: "(vote \<times> time) list"
  candidateBlock :: "hash \<rightharpoonup> block"
  fastForward :: "64 word option"

text \<open>
  The parts of the repository that \<^verbatim>\<open>agreement.go\<close> calls and that are not among
  the sources are parameters: \<^verbatim>\<open>verifyVoteSignature\<close>, \<^verbatim>\<open>Position.Newer\<close>, the
  leader selector (its state is of type \<^typ>\<open>'l\<close>) and the two sentinel hashes.
\<close>

record 'l env =
  verifyVoteSignature :: "vote \<Rightarrow> bool \<times> error option"
  Newer :: "position \<Rightarrow> position \<Rightarrow> bool"
  leaderRestart :: "'l \<Rightarrow> 'l"
  leaderProcessBlock :: "'l \<Rightarrow> block \<Rightarrow> error option \<times> 'l"
  nullBlockHash :: hash
  skipBlockHash :: hash

text \<open>
  How a call ends. A send on the full channel \<^verbatim>\<open>fastForward\<close> waits until
  \<^verbatim>\<open>done\<close> empties it: the call has not returned, and \<open>BlockedOnSend p\<close> keeps the
  value it is sending. \<open>Panicked\<close> is an index out of range.
\<close>

datatype 'r outcome = Returned 'r | BlockedOnSend "64 word" | Panicked

subsection \<open>Quorum tally\<close>

text \<open>The first loop of \<^verbatim>\<open>countVoteNoLock\<close>: one more for the hash of each vote.\<close>

fun countCandidates :: "(nodeID \<times> vote) list \<Rightarrow> (hash \<times> int) list \<Rightarrow> (hash \<times> int) list" where
  "countCandidates [] candidate = candidate"
| "countCandidates (nv # rest) candidate =
     (let h = BlockHash (snd nv);
          c0 = (case map_of candidate h of None \<Rightarrow> AList.update h 0 candidate | Some _ \<Rightarrow> candidate);
          c1 = AList.update h (the (map_of c0 h) + 1) c0
      in countCandidates rest c1)"

definition countVoteNoLock ::
  "'l agreementData \<Rightarrow> hash list \<Rightarrow> 64 word \<Rightarrow> voteType \<Rightarrow> hash \<times> bool" where
  "countVoteNoLock a pref p voteType =
     (case votes a p of
        None \<Rightarrow> (0, False)
      | Some vs \<Rightarrow>
          (let candidate = countCandidates (DAList.impl_of (vs voteType)) []
           in case find (\<lambda>c. snd c \<ge> requiredVote a) (goRange pref candidate) of
                Some c \<Rightarrow> (fst c, True)
              | None \<Rightarrow> (0, False)))"

definition setPeriodStep :: "(64 word \<rightharpoonup> voteListMap) \<Rightarrow> 64 word \<Rightarrow> (64 word \<rightharpoonup> voteListMap)" where
  "setPeriodStep vs i = (case vs i of None \<Rightarrow> vs(i \<mapsto> newVoteListMap) | Some _ \<Rightarrow> vs)"

text \<open>The loop of \<^verbatim>\<open>setPeriod\<close>: \<^verbatim>\<open>for i := a.period + 1; i <= period; i++\<close> on
  \<^verbatim>\<open>uint64\<close>. It does not end when \<open>period\<close> is the largest value.\<close>

partial_function (option) setPeriodLoop ::
  "(64 word \<rightharpoonup> voteListMap) \<Rightarrow> 64 word \<Rightarrow> 64 word \<Rightarrow> (64 word \<rightharpoonup> voteListMap) option" where
  "setPeriodLoop vs i p =
     (if i \<le> p then setPeriodLoop (setPeriodStep vs i) (i + 1) p else Some vs)"

declare setPeriodLoop.simps [code]

definition setPeriod :: "'l agreementData \<Rightarrow> 64 word \<Rightarrow> 'l agreementData option" where
  "setPeriod a p =
     (case setPeriodLoop (votes a) (period a + 1) p of
        None \<Rightarrow> None
      | Some vs \<Rightarrow> Some (a\<lparr>votes := vs, period := p\<rparr>))"

subsection \<open>Checks\<close>

definition isStop :: "position \<Rightarrow> bool" where
  "isStop p = (chainID p = 4294967295)"

definition agreementID :: "'l agreement \<Rightarrow> position" where
  "agreementID a = aID a"

definition sanityCheck :: "'l env \<Rightarrow> 'l agreement \<Rightarrow> vote \<Rightarrow> error option" where
  "sanityCheck e a v =
     (if ProposerID v |\<notin>| notarySet a then Some ErrNotInNotarySet
      else case verifyVoteSignature e v of
             (ok, Some err) \<Rightarrow> Some err
           | (ok, None) \<Rightarrow> if \<not> ok then Some ErrIncorrectVoteSignature else None)"

definition checkForkVote :: "'l agreement \<Rightarrow> vote \<Rightarrow> error option" where
  "checkForkVote a v =
     (case votes (data a) (Period v) of
        None \<Rightarrow> None
      | Some vs \<Rightarrow>
          (case DAList.lookup (vs (Type v)) (ProposerID v) of
             None \<Rightarrow> None
           | Some oldVote \<Rightarrow>
               if BlockHash v \<noteq> BlockHash oldVote
               then Some (ErrForkVote (ProposerID v) oldVote v) else None))"

definition findCandidateBlock :: "'l agreement \<Rightarrow> hash \<Rightarrow> block option" where
  "findCandidateBlock a h = candidateBlock a h"

definition addCandidateBlock :: "'l agreement \<Rightarrow> block \<Rightarrow> 'l agreement" where
  "addCandidateBlock a b = a\<lparr>candidateBlock := (candidateBlock a)(Hash b \<mapsto> b)\<rparr>"

subsection \<open>processVote\<close>

text \<open>The send \<^verbatim>\<open>a.fastForward <- p\<close> followed by \<^verbatim>\<open>return nil\<close>.\<close>

definition sendFastForward :: "'l agreement \<Rightarrow> 64 word \<Rightarrow> error option outcome \<times> 'l agreement" where
  "sendFastForward a p =
     (case fastForward a of
        None \<Rightarrow> (Returned None, a\<lparr>fastForward := Some p\<rparr>)
      | Some _ \<Rightarrow> (BlockedOnSend p, a))"

text \<open>Lines 315 to 318: the bucket of the period is made when it is missing, and the
  vote is stored under its type and proposer.\<close>

definition recordVote :: "'l agreementData \<Rightarrow> vote \<Rightarrow> 'l agreementData" where
  "recordVote d v =
     (let vs = (case votes d (Period v) of None \<Rightarrow> newVoteListMap | Some vs \<Rightarrow> vs)
      in d\<lparr>votes := (votes d)(Period v \<mapsto>
             vs(Type v := DAList.update (ProposerID v) v (vs (Type v))))\<rparr>)"

text \<open>The closure \<^verbatim>\<open>addPullBlocks\<close>: the hashes of the votes of one type, without the
  two sentinels and without the hashes of the candidate blocks.\<close>

definition addPullBlocks ::
  "'l env \<Rightarrow> 'l agreement \<Rightarrow> nodeID list \<Rightarrow> voteMap \<Rightarrow> hash list" where
  "addPullBlocks e a pref m =
     map (\<lambda>nv. BlockHash (snd nv))
       (filter (\<lambda>nv. \<not> (BlockHash (snd nv) = nullBlockHash e \<or> BlockHash (snd nv) = skipBlockHash e)
                    \<and> findCandidateBlock a (BlockHash (snd nv)) = None)
          (goRange pref (DAList.impl_of m)))"

text \<open>Lines 352 to 373, \<^verbatim>\<open>// Condition 3\<close>.\<close>

definition condition3 ::
  "'l env \<Rightarrow> iterOrder \<Rightarrow> 'l agreement \<Rightarrow> vote \<Rightarrow> error option outcome \<times> 'l agreement" where
  "condition3 e ord a v =
     (case votes (data a) (Period v) of
        None \<Rightarrow> (if Type v = VoteCom \<and> Period v \<ge> period (data a) then (Panicked, a)
                 else (Returned None, a))
      | Some vs \<Rightarrow>
          if Type v = VoteCom \<and> Period v \<ge> period (data a) \<and>
             int (length (DAList.impl_of (vs VoteCom))) \<ge> requiredVote (data a)
          then
            (let hashes = addPullBlocks e a (nodeOrder ord VoteInit) (vs VoteInit)
                        @ addPullBlocks e a (nodeOrder ord VotePreCom) (vs VotePreCom)
                        @ addPullBlocks e a (nodeOrder ord VoteCom) (vs VoteCom);
                 a1 = a\<lparr>data := (data a)\<lparr>recv := recv (data a) @ [PullBlocks hashes]\<rparr>\<rparr>
             in sendFastForward a1 (Period v + 1))
          else (Returned None, a))"

text \<open>Lines 331 to 351, the conditions 1 and 2, and then condition 3.\<close>

definition checkFastForward ::
  "'l env \<Rightarrow> iterOrder \<Rightarrow> 'l agreement \<Rightarrow> vote \<Rightarrow> error option outcome \<times> 'l agreement" where
  "checkFastForward e ord a v =
     (if Type v = VotePreCom then
        (case countVoteNoLock (data a) (hashOrder ord) (Period v) (Type v) of
           (h, ok) \<Rightarrow>
             if ok \<and> h \<noteq> skipBlockHash e then
               if period (data a) \<ge> Period v \<and> Period v > lockRound (data a) \<and>
                  BlockHash v \<noteq> lockValue (data a)
               then sendFastForward
                      (a\<lparr>data := (data a)\<lparr>lockValue := h, lockRound := Period v\<rparr>\<rparr>)
                      (period (data a) + 1)
               else if Period v > period (data a)
               then sendFastForward
                      (a\<lparr>data := (data a)\<lparr>lockValue := h, lockRound := Period v\<rparr>\<rparr>)
                      (Period v)
               else condition3 e ord a v
             else condition3 e ord a v)
      else condition3 e ord a v)"

text \<open>Lines 319 to 329: the confirmation of a block, once.\<close>

definition checkOutput ::
  "'l env \<Rightarrow> iterOrder \<Rightarrow> 'l agreement \<Rightarrow> vote \<Rightarrow> error option outcome \<times> 'l agreement" where
  "checkOutput e ord a v =
     (if \<not> hasOutput a \<and> Type v = VoteCom then
        (case countVoteNoLock (data a) (hashOrder ord) (Period v) (Type v) of
           (h, ok) \<Rightarrow>
             if ok \<and> h \<noteq> skipBlockHash e then
               (case votes (data a) (Period v) of
                  None \<Rightarrow> (Panicked, a\<lparr>hasOutput := True\<rparr>)
                | Some vs \<Rightarrow>
                    (Returned None,
                     a\<lparr>hasOutput := True,
                       data := (data a)\<lparr>recv := recv (data a) @ [ConfirmBlock h (vs VoteCom)]\<rparr>\<rparr>))
             else checkFastForward e ord a v)
      else if hasOutput a then (Returned None, a)
      else checkFastForward e ord a v)"

definition processVote ::
  "'l env \<Rightarrow> iterOrder \<Rightarrow> time \<Rightarrow> 'l agreement \<Rightarrow> vote \<Rightarrow> error option outcome \<times> 'l agreement" where
  "processVote e ord now a v =
     (case sanityCheck e a v of
        Some err \<Rightarrow> (Returned (Some err), a)
      | None \<Rightarrow>
          if Position v \<noteq> agreementID a then
            (if \<not> isStop (agreementID a) \<and> Newer e (agreementID a) (Position v)
             then (Returned None, a)
             else (Returned None, a\<lparr>pendingVote := pendingVote a @ [(v, now)]\<rparr>))
          else
            (case checkForkVote a v of
               Some err \<Rightarrow> (Returned (Some err), a)
             | None \<Rightarrow> checkOutput e ord (a\<lparr>data := recordVote (data a) v\<rparr>) v))"

subsection \<open>processBlock\<close>

definition processBlock ::
  "'l env \<Rightarrow> time \<Rightarrow> 'l agreement \<Rightarrow> block \<Rightarrow> error option \<times> 'l agreement" where
  "processBlock e now a b =
     (if BlockPosition b \<noteq> agreementID a then
        (if \<not> isStop (agreementID a) \<and> Newer e (agreementID a) (BlockPosition b)
         then (None, a)
         else (None, a\<lparr>pendingBlock := pendingBlock a @ [(b, now)]\<rparr>))
      else
        (case blocks (data a) (BlockProposerID b) of
           Some b0 \<Rightarrow>
             if Hash b0 \<noteq> Hash b then (Some (ErrFork (BlockProposerID b) (Hash b0) (Hash b)), a)
             else (None, a)
         | None \<Rightarrow>
             (case leaderProcessBlock e (leader (data a)) b of
                (Some err, l) \<Rightarrow> (Some err, a\<lparr>data := (data a)\<lparr>leader := l\<rparr>\<rparr>)
              | (None, l) \<Rightarrow>
                  (None,
                   addCandidateBlock
                     (a\<lparr>data := (data a)\<lparr>leader := l,
                                          blocks := (blocks (data a))(BlockProposerID b \<mapsto> b)\<rparr>\<rparr>)
                     b))))"

subsection \<open>done\<close>

text \<open>The result is whether a value is put on the returned channel; \<open>None\<close> when the
  loop of \<^verbatim>\<open>setPeriod\<close> does not end.\<close>

definition done' :: "'l agreement \<Rightarrow> (bool \<times> 'l agreement) option" where
  "done' a =
     (if hasOutput a then Some (True, a)
      else
        (case fastForward a of
           None \<Rightarrow> Some (False, a)
         | Some p \<Rightarrow>
             if p \<le> period (data a) then Some (False, a\<lparr>fastForward := None\<rparr>)
             else
               (case setPeriod (data a) p of
                  None \<Rightarrow> None
                | Some d \<Rightarrow>
                    Some (True, a\<lparr>fastForward := None, data := d, state := PreCommitState\<rparr>))))"

subsection \<open>restart and stop\<close>

text \<open>Lines 140 to 161: the new round state.\<close>

definition resetAgreement ::
  "'l env \<Rightarrow> 'l agreement \<Rightarrow> nodeID fset \<Rightarrow> position \<Rightarrow> 'l agreement" where
  "resetAgreement e a ns p =
     a\<lparr>data := (data a)\<lparr>votes := Map.empty(1 \<mapsto> newVoteListMap),
                         period := 1,
                         blocks := Map.empty,
                         requiredVote := int (fcard ns) div 3 * 2 + 1,
                         leader := leaderRestart e (leader (data a)),
                         lockValue := nullBlockHash e,
                         lockRound := 1\<rparr>,
       fastForward := None,
       hasOutput := False,
       state := InitialState,
       notarySet := ns,
       candidateBlock := Map.empty,
       aID := p\<rparr>"

text \<open>The two sweeps of the pending buffers (lines 173 to 181 and 190 to 198): the
  accumulator is the pair of the entries kept and the messages to replay.\<close>

fun sweepPendingBlock ::
  "'l env \<Rightarrow> position \<Rightarrow> time \<Rightarrow> (block \<times> time) list \<Rightarrow>
   (block \<times> time) list \<times> block list \<Rightarrow> (block \<times> time) list \<times> block list" where
  "sweepPendingBlock e p expireTime [] acc = acc"
| "sweepPendingBlock e p expireTime (pending # rest) (newPendingBlock, replayBlock) =
     (if Newer e p (BlockPosition (fst pending))
      then sweepPendingBlock e p expireTime rest (newPendingBlock, replayBlock)
      else if BlockPosition (fst pending) = p
      then sweepPendingBlock e p expireTime rest (newPendingBlock, replayBlock @ [fst pending])
      else if snd pending > expireTime
      then sweepPendingBlock e p expireTime rest (newPendingBlock @ [pending], replayBlock)
      else sweepPendingBlock e p expireTime rest (newPendingBlock, replayBlock))"

fun sweepPendingVote ::
  "'l env \<Rightarrow> position \<Rightarrow> time \<Rightarrow> (vote \<times> time) list \<Rightarrow>
   (vote \<times> time) list \<times> vote list \<Rightarrow> (vote \<times> time) list \<times> vote list" where
  "sweepPendingVote e p expireTime [] acc = acc"
| "sweepPendingVote e p expireTime (pending # rest) (newPendingVote, replayVote) =
     (if Newer e p (Position (fst pending))
      then sweepPendingVote e p expireTime rest (newPendingVote, replayVote)
      else if Position (fst pending) = p
      then sweepPendingVote e p expireTime rest (newPendingVote, replayVote @ [fst pending])
      else if snd pending > expireTime
      then sweepPendingVote e p expireTime rest (newPendingVote @ [pending], replayVote)
      else sweepPendingVote e p expireTime rest (newPendingVote, replayVote))"

text \<open>The two replay loops (lines 202 to 208). The errors are dropped. The \<open>i\<close>-th
  replayed vote is iterated in the order \<open>ords i\<close>.\<close>

fun replayBlocks :: "'l env \<Rightarrow> time \<Rightarrow> 'l agreement \<Rightarrow> block list \<Rightarrow> 'l agreement" where
  "replayBlocks e now a [] = a"
| "replayBlocks e now a (b # bs) = replayBlocks e now (snd (processBlock e now a b)) bs"

fun replayVotes ::
  "'l env \<Rightarrow> (nat \<Rightarrow> iterOrder) \<Rightarrow> time \<Rightarrow> 'l agreement \<Rightarrow> vote list \<Rightarrow>
   unit outcome \<times> 'l agreement" where
  "replayVotes e ords now a [] = (Returned (), a)"
| "replayVotes e ords now a (v # vs) =
     (case processVote e (ords 0) now a v of
        (Returned _, a1) \<Rightarrow> replayVotes e (\<lambda>i. ords (Suc i)) now a1 vs
      | (BlockedOnSend p, a1) \<Rightarrow> (BlockedOnSend p, a1)
      | (Panicked, a1) \<Rightarrow> (Panicked, a1))"

text \<open>\<open>now\<close> is the reading of the clock; ten seconds are \<open>10 * 10^9\<close> nanoseconds.\<close>

definition restart ::
  "'l env \<Rightarrow> (nat \<Rightarrow> iterOrder) \<Rightarrow> time \<Rightarrow> 'l agreement \<Rightarrow> nodeID fset \<Rightarrow> position \<Rightarrow>
   unit outcome \<times> 'l agreement" where
  "restart e ords now a ns p =
     (let a1 = resetAgreement e a ns p in
      if isStop p then (Returned (), a1)
      else
        (let expireTime = now - 10 * 1000000000;
             (newPendingBlock, replayBlock) =
                sweepPendingBlock e p expireTime (pendingBlock a1) ([], []);
             a2 = a1\<lparr>pendingBlock := newPendingBlock\<rparr>;
             (newPendingVote, replayVote) =
                sweepPendingVote e p expireTime (pendingVote a2) ([], []);
             a3 = a2\<lparr>pendingVote := newPendingVote\<rparr>;
             a4 = replayBlocks e now a3 replayBlock
         in replayVotes e ords now a4 replayVote))"

definition stopPosition :: position where
  "stopPosition = \<lparr>chainID = 4294967295, height = 0\<rparr>"

definition stop :: "'l env \<Rightarrow> (nat \<Rightarrow> iterOrder) \<Rightarrow> time \<Rightarrow> 'l agreement \<Rightarrow> unit outcome \<times> 'l agreement" where
  "stop e ords now a = restart e ords now a {||} stopPosition"

text \<open>\<^verbatim>\<open>newAgreement\<close>: the zero values of Go, the given fields, and then \<^verbatim>\<open>stop\<close>.\<close>

definition zeroAgreement :: "nodeID \<Rightarrow> 'l \<Rightarrow> 'l agreement" where
  "zeroAgreement i l =
     \<lparr>state = InitialState,
      data = \<lparr>recv = [], ID = i, leader = l, lockValue = 0, lockRound = 0, period = 0,
              requiredVote = 0, votes = Map.empty, blocks = Map.empty\<rparr>,
      aID = \<lparr>chainID = 0, height = 0\<rparr>,
      notarySet = {||},
      hasOutput = False,
      pendingBlock = [],
      pendingVote = [],
      candidateBlock = Map.empty,
      fastForward = None\<rparr>"

definition newAgreement :: "'l env \<Rightarrow> nodeID \<Rightarrow> 'l \<Rightarrow> 'l agreement" where
  "newAgreement e i l = snd (stop e (\<lambda>_. \<lparr>hashOrder = [], nodeOrder = (\<lambda>_. [])\<rparr>) 0 (zeroAgreement i l))"

text \<open>\<^verbatim>\<open>countVote\<close> is \<^verbatim>\<open>countVoteNoLock\<close> under the read lock.\<close>

definition countVote ::
  "'l agreementData \<Rightarrow> hash list \<Rightarrow> 64 word \<Rightarrow> voteType \<Rightarrow> hash \<times> bool" where
  "countVote a pref p voteType = countVoteNoLock a pref p voteType"

subsection \<open>Sequences of calls\<close>

text \<open>The calls of the driver and of the network layer, with what each reads from its
  environment (the clock, the order of iteration). A sequence of calls runs as long as
  each call returns.\<close>

datatype call =
    ProcessVote iterOrder time vote
  | ProcessBlock time block
  | Done
  | Restart "nat \<Rightarrow> iterOrder" time "nodeID fset" position

fun step :: "'l env \<Rightarrow> 'l agreement \<Rightarrow> call \<Rightarrow> 'l agreement option" where
  "step e a (ProcessVote ord now v) =
     (case processVote e ord now a v of
        (Returned _, a1) \<Rightarrow> Some a1
      | (BlockedOnSend _, _) \<Rightarrow> None
      | (Panicked, _) \<Rightarrow> None)"
| "step e a (ProcessBlock now b) = Some (snd (processBlock e now a b))"
| "step e a Done = (case done' a of None \<Rightarrow> None | Some (_, a1) \<Rightarrow> Some a1)"
| "step e a (Restart ords now ns p) =
     (case restart e ords now a ns p of
        (Returned _, a1) \<Rightarrow> Some a1
      | (BlockedOnSend _, _) \<Rightarrow> None
      | (Panicked, _) \<Rightarrow> None)"

fun run :: "'l env \<Rightarrow> 'l agreement \<Rightarrow> call list \<Rightarrow> 'l agreement option" where
  "run e a [] = Some a"
| "run e a (c # cs) = (case step e a c of None \<Rightarrow> None | Some a1 \<Rightarrow> run e a1 cs)"

fun isRestart :: "call \<Rightarrow> bool" where
  "isRestart (Restart _ _ _ _) = True"
| "isRestart _ = False"

subsection \<open>Notions used in the statements\<close>

text \<open>The vote recorded for a period, a vote type and a proposer:
  \<^verbatim>\<open>a.data.votes[p][t][n]\<close>.\<close>

definition recordedVote :: "'l agreementData \<Rightarrow> 64 word \<Rightarrow> voteType \<Rightarrow> nodeID \<Rightarrow> vote option" where
  "recordedVote d p t n =
     (case votes d p of None \<Rightarrow> None | Some vs \<Rightarrow> DAList.lookup (vs t) n)"

text \<open>The proposers whose vote of type \<open>t\<close> in period \<open>p\<close> is for the hash \<open>h\<close>.\<close>

definition votersFor :: "'l agreementData \<Rightarrow> 64 word \<Rightarrow> voteType \<Rightarrow> hash \<Rightarrow> nodeID set" where
  "votersFor d p t h =
     (case votes d p of
        None \<Rightarrow> {}
      | Some vs \<Rightarrow> {n. \<exists>v. DAList.lookup (vs t) n = Some v \<and> BlockHash v = h})"

text \<open>The number of votes recorded for a period and a vote type:
  \<^verbatim>\<open>len(a.data.votes[p][t])\<close>.\<close>

definition voteCount :: "'l agreementData \<Rightarrow> 64 word \<Rightarrow> voteType \<Rightarrow> int" where
  "voteCount d p t =
     (case votes d p of None \<Rightarrow> 0 | Some vs \<Rightarrow> int (length (DAList.impl_of (vs t))))"

text \<open>The hashes that the votes of a period name (of type Init, PreCommit or Commit),
  other than the two sentinels, for which the pool of candidate blocks has no block.\<close>

definition missingHashes :: "'l env \<Rightarrow> 'l agreement \<Rightarrow> 64 word \<Rightarrow> hash set" where
  "missingHashes e a p =
     {h. h \<noteq> nullBlockHash e \<and> h \<noteq> skipBlockHash e \<and> candidateBlock a h = None \<and>
         (\<exists>t\<in>{VoteInit, VotePreCom, VoteCom}. \<exists>n v.
            recordedVote (data a) p t n = Some v \<and> BlockHash v = h)}"

text \<open>The test of \<^verbatim>\<open>addPullBlocks\<close> on a hash: neither sentinel, and no candidate block
  has it.\<close>

definition wantedHash :: "'l env \<Rightarrow> 'l agreement \<Rightarrow> hash \<Rightarrow> bool" where
  "wantedHash e a h \<longleftrightarrow>
     h \<noteq> nullBlockHash e \<and> h \<noteq> skipBlockHash e \<and> candidateBlock a h = None"

text \<open>The state in which \<^verbatim>\<open>processVote\<close> has stored the vote (line 318).\<close>

definition withVote :: "'l agreement \<Rightarrow> vote \<Rightarrow> 'l agreement" where
  "withVote a v = a\<lparr>data := recordVote (data a) v\<rparr>"

text \<open>The calls of \<^verbatim>\<open>ConfirmBlock\<close> among the calls to the receiver.\<close>

fun isConfirm :: "recvEvent \<Rightarrow> bool" where
  "isConfirm (ConfirmBlock _ _) = True"
| "isConfirm (PullBlocks _) = False"

definition confirms :: "'l agreement \<Rightarrow> recvEvent list" where
  "confirms a = filter isConfirm (recv (data a))"

text \<open>The block hashes of the votes recorded for a period and a vote type, one for each
  vote.\<close>

definition hashesOf :: "'l agreementData \<Rightarrow> 64 word \<Rightarrow> voteType \<Rightarrow> hash list" where
  "hashesOf d p t =
     (case votes d p of
        None \<Rightarrow> []
      | Some vs \<Rightarrow> map (\<lambda>nv. BlockHash (snd nv)) (DAList.impl_of (vs t)))"

text \<open>The Commit votes of a period: \<^verbatim>\<open>a.data.votes[p][types.VoteCom]\<close>.\<close>

definition commitVotes :: "'l agreementData \<Rightarrow> 64 word \<Rightarrow> voteMap" where
  "commitVotes d p = (case votes d p of None \<Rightarrow> DAList.empty | Some vs \<Rightarrow> vs VoteCom)"

text \<open>The hash \<open>h\<close> has a quorum among the votes of a period and type, and no other hash
  has one.\<close>

definition onlyQuorum :: "'l agreementData \<Rightarrow> 64 word \<Rightarrow> voteType \<Rightarrow> hash \<Rightarrow> bool" where
  "onlyQuorum d p t h \<longleftrightarrow>
     requiredVote d \<le> int (card (votersFor d p t h)) \<and>
     (\<forall>h'. requiredVote d \<le> int (card (votersFor d p t h')) \<longrightarrow> h' = h)"

text \<open>Since the round began with the calls \<open>before\<close> of \<^verbatim>\<open>ConfirmBlock\<close> made, there
  has been one more if the round has its output, and none otherwise.\<close>

definition confirmedOnce :: "recvEvent list \<Rightarrow> 'l agreement \<Rightarrow> bool" where
  "confirmedOnce before a \<longleftrightarrow>
     (\<exists>new. confirms a = before @ new \<and> length new = (if hasOutput a then 1 else 0))"

text \<open>What the spec says of a pending entry at a \<^verbatim>\<open>restart\<close> to the position \<open>p\<close> at the
  time \<open>now\<close>: discarded when \<open>p\<close> is newer than its position, replayed when its
  position is \<open>p\<close>, kept when it was received after the cutoff of ten seconds ago,
  discarded otherwise.\<close>

datatype sweepFate = Discarded | Replayed | Kept

definition fate :: "'l env \<Rightarrow> position \<Rightarrow> time \<Rightarrow> position \<Rightarrow> time \<Rightarrow> sweepFate" where
  "fate e p now pos receivedTime =
     (if Newer e p pos then Discarded
      else if pos = p then Replayed
      else if receivedTime > now - 10000000000 then Kept
      else Discarded)"

text \<open>The lock round is at most the period, or it is the value waiting in the
  channel \<^verbatim>\<open>fastForward\<close>.\<close>

definition lockInv :: "'l agreement \<Rightarrow> bool" where
  "lockInv a \<longleftrightarrow>
     lockRound (data a) \<le> period (data a) \<or> fastForward a = Some (lockRound (data a))"

text \<open>Every recorded vote passes the sanity check, is for the current position and is
  stored under its own period, type and proposer; every recorded block is for the
  current position and is stored under its own proposer.\<close>

definition recordsValid :: "'l env \<Rightarrow> 'l agreement \<Rightarrow> bool" where
  "recordsValid e a \<longleftrightarrow>
     (\<forall>p t n v. recordedVote (data a) p t n = Some v \<longrightarrow>
        sanityCheck e a v = None \<and> Position v = aID a \<and>
        Period v = p \<and> Type v = t \<and> ProposerID v = n) \<and>
     (\<forall>n b. blocks (data a) n = Some b \<longrightarrow> BlockPosition b = aID a \<and> BlockProposerID b = n)"

text \<open>What \<^verbatim>\<open>processVote\<close> never writes.\<close>

definition voteFrame :: "'l agreement \<Rightarrow> 'l agreement \<Rightarrow> bool" where
  "voteFrame a a' \<longleftrightarrow>
     notarySet a' = notarySet a \<and> aID a' = aID a \<and> state a' = state a \<and>
     candidateBlock a' = candidateBlock a \<and> pendingBlock a' = pendingBlock a \<and>
     requiredVote (data a') = requiredVote (data a) \<and> period (data a') = period (data a) \<and>
     blocks (data a') = blocks (data a) \<and> leader (data a') = leader (data a) \<and>
     ID (data a') = ID (data a)"

subsection \<open>A test bed\<close>

text \<open>Collaborators that accept everything, for the concrete runs: every signature
  verifies, a position is newer when its height is greater, the leader selector has no
  state; the null hash is all zeros and the skip hash all ones.\<close>

definition testEnv :: "unit env" where
  "testEnv =
     \<lparr>verifyVoteSignature = (\<lambda>v. (True, None)),
      Newer = (\<lambda>p q. height p > height q),
      leaderRestart = (\<lambda>l. l),
      leaderProcessBlock = (\<lambda>l b. (None, l)),
      nullBlockHash = 0,
      skipBlockHash = - 1\<rparr>"

definition testOrder :: iterOrder where
  "testOrder = \<lparr>hashOrder = [], nodeOrder = (\<lambda>_. [])\<rparr>"

definition testPosition :: position where
  "testPosition = \<lparr>chainID = 0, height = 1\<rparr>"

definition testVote :: "nodeID \<Rightarrow> 64 word \<Rightarrow> voteType \<Rightarrow> hash \<Rightarrow> vote" where
  "testVote n p t h =
     \<lparr>ProposerID = n, Position = testPosition, Period = p, Type = t, BlockHash = h, Signature = 0\<rparr>"

definition testBlock :: "nodeID \<Rightarrow> hash \<Rightarrow> block" where
  "testBlock n h = \<lparr>BlockProposerID = n, BlockPosition = \<lparr>chainID = 0, height = 1\<rparr>, Hash = h\<rparr>"

definition testVoteAt :: "64 word \<Rightarrow> nodeID \<Rightarrow> 64 word \<Rightarrow> voteType \<Rightarrow> hash \<Rightarrow> vote" where
  "testVoteAt ht n p t h =
     \<lparr>ProposerID = n, Position = \<lparr>chainID = 0, height = ht\<rparr>, Period = p, Type = t,
      BlockHash = h, Signature = 0\<rparr>"

definition testBlockAt :: "64 word \<Rightarrow> nodeID \<Rightarrow> hash \<Rightarrow> block" where
  "testBlockAt ht n h =
     \<lparr>BlockProposerID = n, BlockPosition = \<lparr>chainID = 0, height = ht\<rparr>, Hash = h\<rparr>"

text \<open>A new instance restarted at \<open>testPosition\<close> with the notary set \<open>{1, 2, 3, 4}\<close>.\<close>

definition testStart :: "unit agreement" where
  "testStart =
     snd (restart testEnv (\<lambda>_. testOrder) 0 (newAgreement testEnv 0 ()) {|1, 2, 3, 4|} testPosition)"

text \<open>Votes one after the other, each on the state its predecessor left.\<close>

fun testVotes :: "unit agreement \<Rightarrow> vote list \<Rightarrow> unit agreement" where
  "testVotes a [] = a"
| "testVotes a (v # vs) = testVotes (snd (processVote testEnv testOrder 0 a v)) vs"

text \<open>A run in which the PreCommit votes of period 4 have the winner 7 while the lock
  is on 9 since period 3: three PreCommit votes for 7 in period 2 (condition 2), Commit
  votes for the skip hash in period 3 (condition 3), three PreCommit votes for 7 in period
  4, then three PreCommit votes for 9 in period 3 (condition 1), with \<^verbatim>\<open>done\<close> after
  each fast-forward.\<close>

definition lockedOnNine :: "call list" where
  "lockedOnNine =
     [ProcessVote testOrder 0 (testVote 1 2 VotePreCom 7),
      ProcessVote testOrder 0 (testVote 2 2 VotePreCom 7),
      ProcessVote testOrder 0 (testVote 3 2 VotePreCom 7),
      Done,
      ProcessVote testOrder 0 (testVote 1 3 VoteCom (- 1)),
      ProcessVote testOrder 0 (testVote 2 3 VoteCom (- 1)),
      ProcessVote testOrder 0 (testVote 3 3 VoteCom (- 1)),
      Done,
      ProcessVote testOrder 0 (testVote 1 4 VotePreCom 7),
      ProcessVote testOrder 0 (testVote 2 4 VotePreCom 7),
      ProcessVote testOrder 0 (testVote 3 4 VotePreCom 7),
      ProcessVote testOrder 0 (testVote 1 3 VotePreCom 9),
      ProcessVote testOrder 0 (testVote 2 3 VotePreCom 9),
      ProcessVote testOrder 0 (testVote 3 3 VotePreCom 9),
      Done]"

definition lockedOnNineState :: "unit agreement" where
  "lockedOnNineState = the (run testEnv testStart lockedOnNine)"

text \<open>Three PreCommit votes for 7 in period 3, on the new round.\<close>

definition quorumInPeriod3 :: "call list" where
  "quorumInPeriod3 =
     [ProcessVote testOrder 0 (testVote 1 3 VotePreCom 7),
      ProcessVote testOrder 0 (testVote 2 3 VotePreCom 7),
      ProcessVote testOrder 0 (testVote 3 3 VotePreCom 7)]"

definition quorumInPeriod3State :: "unit agreement" where
  "quorumInPeriod3State = the (run testEnv testStart quorumInPeriod3)"

text \<open>The round after three Commit votes for 7 in period 1.\<close>

definition confirmedState :: "unit agreement" where
  "confirmedState =
     testVotes testStart [testVote 1 1 VoteCom 7, testVote 2 1 VoteCom 7, testVote 3 1 VoteCom 7]"

text \<open>A round with the two notaries 1 and 2, where one vote is a quorum: a Commit vote
  of 1 for the skip hash in period 1, and then \<^verbatim>\<open>done\<close>.\<close>

definition twoNotariesState :: "unit agreement" where
  "twoNotariesState =
     the (run testEnv (newAgreement testEnv 0 ())
            [Restart (\<lambda>_. testOrder) 0 {|1, 2|} testPosition,
             ProcessVote testOrder 0 (testVote 1 1 VoteCom (- 1)),
             Done])"

text \<open>A round with the candidate block 7, an Init vote for 9, a PreCommit vote for 7 and
  Commit votes for 7 and 9, all in period 1; the next Commit vote, for 11, is the third.\<close>

definition splitCommitState :: "unit agreement" where
  "splitCommitState =
     testVotes (snd (processBlock testEnv 0 testStart (testBlock 1 7)))
       [testVote 1 1 VoteInit 9, testVote 2 1 VotePreCom 7,
        testVote 1 1 VoteCom 7, testVote 2 1 VoteCom 9]"

section \<open>Proofs\<close>

subsection \<open>The tally\<close>

lemma set_goRange: "set (goRange pref xs) = set xs"
  by (auto simp: goRange_def)

lemma map_of_countCandidates:
  "distinct (map fst c) \<Longrightarrow>
   distinct (map fst (countCandidates xs c)) \<and>
   map_of (countCandidates xs c) h =
     (case map_of c h of
        None \<Rightarrow> (if filter (\<lambda>nv. BlockHash (snd nv) = h) xs = [] then None
                  else Some (int (length (filter (\<lambda>nv. BlockHash (snd nv) = h) xs))))
      | Some m \<Rightarrow> Some (m + int (length (filter (\<lambda>nv. BlockHash (snd nv) = h) xs))))"
proof (induction xs arbitrary: c)
  case Nil
  then show ?case by (simp split: option.splits)
next
  case (Cons nv rest)
  define g where "g = BlockHash (snd nv)"
  define c0 where "c0 = (case map_of c g of None \<Rightarrow> AList.update g 0 c | Some _ \<Rightarrow> c)"
  define c1 where "c1 = AList.update g (the (map_of c0 g) + 1) c0"
  have d0: "distinct (map fst c0)"
    using Cons.prems by (simp add: c0_def distinct_update split: option.splits)
  have d1: "distinct (map fst c1)"
    using d0 by (simp add: c1_def distinct_update)
  have m0: "map_of c0 g = Some (case map_of c g of None \<Rightarrow> 0 | Some m \<Rightarrow> m)"
    by (simp add: c0_def update_conv' split: option.splits)
  have m0': "k \<noteq> g \<Longrightarrow> map_of c0 k = map_of c k" for k
    by (simp add: c0_def update_conv' split: option.splits)
  have m1: "map_of c1 g = Some ((case map_of c g of None \<Rightarrow> 0 | Some m \<Rightarrow> m) + 1)"
    by (simp add: c1_def update_conv' m0)
  have m1': "k \<noteq> g \<Longrightarrow> map_of c1 k = map_of c k" for k
    by (simp add: c1_def update_conv' m0')
  have step: "countCandidates (nv # rest) c = countCandidates rest c1"
    unfolding c1_def c0_def g_def by (simp add: Let_def)
  show ?case
  proof (cases "h = g")
    case True
    then show ?thesis
      using Cons.IH [OF d1] m1 unfolding step
      by (auto simp: g_def split: option.splits)
  next
    case False
    then show ?thesis
      using Cons.IH [OF d1] m1' [of h] unfolding step
      by (auto simp: g_def split: option.splits)
  qed
qed

lemma card_map_of_filter:
  "distinct (map fst xs) \<Longrightarrow>
   card {n. \<exists>v. map_of xs n = Some v \<and> P v} = length (filter (\<lambda>nv. P (snd nv)) xs)"
proof (induction xs)
  case Nil
  then show ?case by simp
next
  case (Cons x xs)
  obtain k v where x: "x = (k, v)" by (cases x)
  from Cons.prems x have knot: "k \<notin> fst ` set xs" and dist: "distinct (map fst xs)" by auto
  let ?S = "{n. \<exists>v. map_of xs n = Some v \<and> P v}"
  have fin: "finite ?S"
    by (rule finite_subset [of _ "dom (map_of xs)"]) (auto simp: finite_dom_map_of)
  have kS: "k \<notin> ?S" using knot by (auto dest: map_of_SomeD intro: rev_image_eqI)
  have "{n. \<exists>w. map_of (x # xs) n = Some w \<and> P w} = (if P v then insert k ?S else ?S)"
    using knot unfolding x by (auto dest: map_of_SomeD intro: rev_image_eqI)
  then show ?case using Cons.IH [OF dist] fin kS by (simp add: x)
qed


lemma find_SomeD: "find P xs = Some x \<Longrightarrow> x \<in> set xs \<and> P x"
  by (induction xs) (auto split: if_splits)

lemma find_None_iff': "find P xs = None \<longleftrightarrow> (\<forall>x\<in>set xs. \<not> P x)"
  by (induction xs) auto

lemma countVoteNoLock_sound:
  assumes "countVoteNoLock a pref p t = (h, True)"
  shows "\<exists>vs. votes a p = Some vs \<and>
           requiredVote a \<le> int (card {n. \<exists>v. DAList.lookup (vs t) n = Some v \<and> BlockHash v = h})"
proof (cases "votes a p")
  case None
  with assms show ?thesis by (simp add: countVoteNoLock_def)
next
  case (Some vs)
  let ?xs = "DAList.impl_of (vs t)"
  let ?cand = "countCandidates ?xs []"
  from assms Some obtain c where f: "find (\<lambda>c. snd c \<ge> requiredVote a) (goRange pref ?cand) = Some c"
    and hc: "fst c = h"
    by (auto simp: countVoteNoLock_def Let_def split: option.splits)
  from f have cin: "c \<in> set ?cand" and big: "requiredVote a \<le> snd c"
    using find_SomeD [OF f] by (simp_all add: set_goRange)
  have mc: "distinct (map fst ?cand)"
    and mo: "map_of ?cand h = (if filter (\<lambda>nv. BlockHash (snd nv) = h) ?xs = [] then None
                  else Some (int (length (filter (\<lambda>nv. BlockHash (snd nv) = h) ?xs))))"
    using map_of_countCandidates [of "[]" ?xs h] by simp_all
  from cin hc mc have "map_of ?cand h = Some (snd c)"
    by (metis map_of_eq_Some_iff prod.collapse)
  with mo have "snd c = int (length (filter (\<lambda>nv. BlockHash (snd nv) = h) ?xs))"
    by (simp split: if_splits)
  also have "\<dots> = int (card {n. \<exists>v. map_of ?xs n = Some v \<and> BlockHash v = h})"
    using card_map_of_filter [of ?xs "\<lambda>v. BlockHash v = h"] by simp
  finally show ?thesis using big Some by (simp add: DAList.lookup.rep_eq)
qed



lemma voteFrame_refl [simp]: "voteFrame a a"
  by (simp add: voteFrame_def)

lemma voteFrame_trans: "voteFrame a b \<Longrightarrow> voteFrame b c \<Longrightarrow> voteFrame a c"
  by (simp add: voteFrame_def)

lemma sendFastForward_frame: "voteFrame a (snd (sendFastForward a p))"
  by (simp add: sendFastForward_def voteFrame_def split: option.splits)

lemma condition3_frame: "voteFrame a (snd (condition3 e ord a v))"
proof -
  have "voteFrame a (a\<lparr>data := (data a)\<lparr>recv := r\<rparr>\<rparr>)" for r
    by (simp add: voteFrame_def)
  then show ?thesis
    unfolding condition3_def Let_def
    by (auto split: option.splits intro: voteFrame_trans [OF _ sendFastForward_frame])
qed

lemma checkFastForward_frame: "voteFrame a (snd (checkFastForward e ord a v))"
proof -
  have "voteFrame a (a\<lparr>data := (data a)\<lparr>lockValue := h, lockRound := r\<rparr>\<rparr>)" for h r
    by (simp add: voteFrame_def)
  then show ?thesis
    unfolding checkFastForward_def
    by (auto split: prod.splits intro: voteFrame_trans [OF _ sendFastForward_frame] condition3_frame)
qed

lemma checkOutput_frame: "voteFrame a (snd (checkOutput e ord a v))"
proof -
  have 1: "voteFrame a (a\<lparr>hasOutput := True\<rparr>)"
    by (simp add: voteFrame_def)
  have 2: "voteFrame a (a\<lparr>hasOutput := True, data := (data a)\<lparr>recv := r\<rparr>\<rparr>)" for r
    by (simp add: voteFrame_def)
  show ?thesis
    unfolding checkOutput_def
    by (simp split: prod.splits option.splits add: 1 2 checkFastForward_frame)
qed

lemma processVote_frame: "voteFrame a (snd (processVote e ord now a v))"
proof -
  have 1: "voteFrame a (a\<lparr>data := recordVote (data a) v\<rparr>)"
    by (simp add: voteFrame_def recordVote_def Let_def)
  have 2: "voteFrame a (a\<lparr>pendingVote := pv\<rparr>)" for pv
    by (simp add: voteFrame_def)
  show ?thesis
    unfolding processVote_def
    by (simp split: option.splits add: 2 voteFrame_trans [OF 1 checkOutput_frame])
qed


lemma processBlock_requiredVote [simp]:
  "requiredVote (data (snd (processBlock e now a b))) = requiredVote (data a)"
  by (simp add: processBlock_def addCandidateBlock_def split: option.splits prod.splits)

lemma replayBlocks_requiredVote [simp]:
  "requiredVote (data (replayBlocks e now a bs)) = requiredVote (data a)"
  by (induction bs arbitrary: a) simp_all

lemma processVote_requiredVote [simp]:
  "requiredVote (data (snd (processVote e ord now a v))) = requiredVote (data a)"
  using processVote_frame [of a e ord now v] by (simp add: voteFrame_def)

lemma replayVotes_requiredVote [simp]:
  "requiredVote (data (snd (replayVotes e ords now a vs))) = requiredVote (data a)"
proof (induction vs arbitrary: a ords)
  case Nil
  then show ?case by simp
next
  case (Cons v vs)
  obtain r a1 where pv: "processVote e (ords 0) now a v = (r, a1)"
    by (cases "processVote e (ords 0) now a v")
  have "requiredVote (data a1) = requiredVote (data a)"
    using processVote_requiredVote [of e "ords 0" now a v] by (simp add: pv)
  then show ?case using Cons.IH [of "\<lambda>i. ords (Suc i)" a1]
    by (cases r) (simp_all add: pv)
qed

lemma restart_requiredVote:
  "requiredVote (data (snd (restart e ords now a ns p))) = int (fcard ns) div 3 * 2 + 1"
  by (simp add: restart_def Let_def resetAgreement_def split: prod.splits)

subsection \<open>Quorum size\<close>

text \<open>
  C8. After every \<^verbatim>\<open>restart\<close> with a notary set of size \<open>n\<close> (whatever is replayed
  from the pending buffers), \<open>requiredVote\<close> is \<open>n div 3 * 2 + 1\<close>: 3, 5 and 7 for
  \<open>n\<close> = 4, 7 and 10. And when \<^verbatim>\<open>countVote\<close> reports the hash \<open>h\<close> as the winner of a
  period and vote type, in whatever order the runtime visits the candidates, at least
  \<open>requiredVote\<close> distinct proposers have their vote of that period and type on \<open>h\<close>.
\<close>

theorem quorum_size:
  "requiredVote (data (snd (restart e ords now a ns p))) = int (fcard ns) div 3 * 2 + 1 \<and>
   (fcard ns = 4 \<longrightarrow> requiredVote (data (snd (restart e ords now a ns p))) = 3) \<and>
   (fcard ns = 7 \<longrightarrow> requiredVote (data (snd (restart e ords now a ns p))) = 5) \<and>
   (fcard ns = 10 \<longrightarrow> requiredVote (data (snd (restart e ords now a ns p))) = 7) \<and>
   (countVote d pref q t = (h, True) \<longrightarrow> requiredVote d \<le> int (card (votersFor d q t h)))"
proof -
  have "requiredVote d \<le> int (card (votersFor d q t h))" if "countVote d pref q t = (h, True)"
    using countVoteNoLock_sound [of d pref q t h] that
    by (auto simp: countVote_def votersFor_def)
  then show ?thesis by (simp add: restart_requiredVote)
qed

theorem quorum_size_witness:
  "fcard {|1, 2, 3, 4 :: nodeID|} = 4 \<and>
   requiredVote (data testStart) = 3 \<and>
   countVote (data (testVotes testStart
       [testVote 1 1 VoteCom 7, testVote 2 1 VoteCom 9, testVote 3 1 VoteCom 7, testVote 4 1 VoteCom 7]))
     [] 1 VoteCom = (7, True) \<and>
   3 \<le> int (card (votersFor (data (testVotes testStart
       [testVote 1 1 VoteCom 7, testVote 2 1 VoteCom 9, testVote 3 1 VoteCom 7, testVote 4 1 VoteCom 7]))
     1 VoteCom 7))"
proof -
  let ?d = "data (testVotes testStart
       [testVote 1 1 VoteCom 7, testVote 2 1 VoteCom 9, testVote 3 1 VoteCom 7, testVote 4 1 VoteCom 7])"
  have f: "fcard {|1, 2, 3, 4 :: nodeID|} = 4" by code_simp
  have c: "countVote ?d [] 1 VoteCom = (7, True)" by code_simp
  have r: "requiredVote ?d = 3" by code_simp
  from quorum_size [of testEnv "\<lambda>_. testOrder" 0 "newAgreement testEnv 0 ()" "{|1, 2, 3, 4|}"
      testPosition ?d "[]" 1 VoteCom 7] f c r
  show ?thesis by (simp add: testStart_def)
qed

subsection \<open>Fork detection\<close>

lemma processVote_accepted:
  "sanityCheck e a v = None \<Longrightarrow> Position v = agreementID a \<Longrightarrow> checkForkVote a v = None \<Longrightarrow>
   processVote e ord now a v = checkOutput e ord (a\<lparr>data := recordVote (data a) v\<rparr>) v"
  by (simp add: processVote_def)

lemma checkForkVote_recorded:
  "checkForkVote a v =
     (case recordedVote (data a) (Period v) (Type v) (ProposerID v) of
        None \<Rightarrow> None
      | Some oldVote \<Rightarrow> if BlockHash v \<noteq> BlockHash oldVote
                        then Some (ErrForkVote (ProposerID v) oldVote v) else None)"
  by (simp add: checkForkVote_def recordedVote_def split: option.splits)

text \<open>
  C2. A block at the current position whose proposer has a recorded block with another
  hash: \<^verbatim>\<open>processBlock\<close> returns \<^verbatim>\<open>ErrFork\<close> and the state is the one before
  the call. A vote for the current position that passes the sanity check, while a vote
  with the same period, type and proposer and another block hash is recorded:
  \<^verbatim>\<open>processVote\<close> returns \<^verbatim>\<open>ErrForkVote\<close> naming the recorded vote, and the state is
  the one before the call. So the first block and the first vote remain recorded.
\<close>

theorem fork_detection:
  "(BlockPosition b = agreementID a \<and> blocks (data a) (BlockProposerID b) = Some b0 \<and>
      Hash b0 \<noteq> Hash b \<longrightarrow>
      processBlock e now a b = (Some (ErrFork (BlockProposerID b) (Hash b0) (Hash b)), a)) \<and>
   (sanityCheck e a v = None \<and> Position v = agreementID a \<and>
      recordedVote (data a) (Period v) (Type v) (ProposerID v) = Some v0 \<and>
      BlockHash v0 \<noteq> BlockHash v \<longrightarrow>
      processVote e ord now a v = (Returned (Some (ErrForkVote (ProposerID v) v0 v)), a))"
  by (auto simp: processBlock_def processVote_def checkForkVote_recorded)

theorem fork_detection_witness:
  "(let a = snd (processBlock testEnv 0 testStart (testBlock 1 7)) in
      BlockPosition (testBlock 1 8) = agreementID a \<and>
      blocks (data a) 1 = Some (testBlock 1 7) \<and> Hash (testBlock 1 7) \<noteq> Hash (testBlock 1 8) \<and>
      processBlock testEnv 0 a (testBlock 1 8) = (Some (ErrFork 1 7 8), a)) \<and>
   (let a = testVotes testStart [testVote 1 1 VoteInit 7] in
      sanityCheck testEnv a (testVote 1 1 VoteInit 8) = None \<and>
      Position (testVote 1 1 VoteInit 8) = agreementID a \<and>
      recordedVote (data a) 1 VoteInit 1 = Some (testVote 1 1 VoteInit 7) \<and>
      processVote testEnv testOrder 0 a (testVote 1 1 VoteInit 8)
        = (Returned (Some (ErrForkVote 1 (testVote 1 1 VoteInit 7) (testVote 1 1 VoteInit 8))), a))"
proof -
  let ?a = "snd (processBlock testEnv 0 testStart (testBlock 1 7))"
  let ?b = "testVotes testStart [testVote 1 1 VoteInit 7]"
  have 1: "BlockPosition (testBlock 1 8) = agreementID ?a" by code_simp
  have 2: "blocks (data ?a) (BlockProposerID (testBlock 1 8)) = Some (testBlock 1 7)" by code_simp
  have 3: "Hash (testBlock 1 7) \<noteq> Hash (testBlock 1 8)" by code_simp
  have 4: "sanityCheck testEnv ?b (testVote 1 1 VoteInit 8) = None" by code_simp
  have 5: "Position (testVote 1 1 VoteInit 8) = agreementID ?b" by code_simp
  have 6: "recordedVote (data ?b) (Period (testVote 1 1 VoteInit 8)) (Type (testVote 1 1 VoteInit 8))
             (ProposerID (testVote 1 1 VoteInit 8)) = Some (testVote 1 1 VoteInit 7)" by code_simp
  have 7: "BlockHash (testVote 1 1 VoteInit 7) \<noteq> BlockHash (testVote 1 1 VoteInit 8)" by code_simp
  from fork_detection [where b = "testBlock 1 8" and a = ?a and ?b0.0 = "testBlock 1 7"
      and e = testEnv and now = 0 and v = "testVote 1 1 VoteInit 8" and ord = testOrder] 1 2 3
  have A: "processBlock testEnv 0 ?a (testBlock 1 8) = (Some (ErrFork 1 7 8), ?a)"
    by (simp add: testBlock_def)
  from fork_detection [where b = "testBlock 1 8" and a = ?b and ?v0.0 = "testVote 1 1 VoteInit 7"
      and e = testEnv and now = 0 and v = "testVote 1 1 VoteInit 8" and ord = testOrder] 4 5 6 7
  have B: "processVote testEnv testOrder 0 ?b (testVote 1 1 VoteInit 8)
        = (Returned (Some (ErrForkVote 1 (testVote 1 1 VoteInit 7) (testVote 1 1 VoteInit 8))), ?b)"
    by (simp add: testVote_def)
  from 1 2 3 4 5 6 A B show ?thesis by (simp add: Let_def testBlock_def testVote_def)
qed

subsection \<open>The stopped instance\<close>

lemma isStop_stopPosition [simp]: "isStop stopPosition"
  by (simp add: isStop_def stopPosition_def)

lemma stop_eq: "stop e ords now a = (Returned (), resetAgreement e a {||} stopPosition)"
  by (simp add: stop_def restart_def Let_def)

lemma processBlock_keeps:
  "notarySet (snd (processBlock e now a b)) = notarySet a \<and>
   aID (snd (processBlock e now a b)) = aID a"
  by (simp add: processBlock_def addCandidateBlock_def split: option.splits prod.splits)

lemma setPeriod_fields:
  "setPeriod d p = Some d' \<Longrightarrow>
   period d' = p \<and> lockRound d' = lockRound d \<and> lockValue d' = lockValue d \<and>
   requiredVote d' = requiredVote d \<and> recv d' = recv d \<and> blocks d' = blocks d \<and>
   leader d' = leader d \<and> ID d' = ID d"
  by (auto simp: setPeriod_def split: option.splits)

lemma done'_keeps:
  "done' a = Some (r, a') \<Longrightarrow> notarySet a' = notarySet a \<and> aID a' = aID a"
  by (auto simp: done'_def split: if_splits option.splits)

lemma step_keeps:
  "\<not> isRestart c \<Longrightarrow> step e a c = Some a' \<Longrightarrow> notarySet a' = notarySet a \<and> aID a' = aID a"
proof (cases c)
  case (ProcessVote ord now v)
  assume "step e a c = Some a'"
  then have "a' = snd (processVote e ord now a v)"
    by (auto simp: ProcessVote split: prod.splits outcome.splits)
  then show ?thesis using processVote_frame [of a e ord now v] by (simp add: voteFrame_def)
next
  case (ProcessBlock now b)
  assume "step e a c = Some a'"
  then show ?thesis using processBlock_keeps [of e now a b] by (auto simp: ProcessBlock)
next
  case Done
  assume "step e a c = Some a'"
  then show ?thesis using done'_keeps [of a] by (auto simp: Done split: option.splits)
next
  case (Restart ords now ns p)
  assume "\<not> isRestart c"
  then show ?thesis by (simp add: Restart)
qed

lemma run_keeps:
  "\<forall>c\<in>set cs. \<not> isRestart c \<Longrightarrow> run e a cs = Some a' \<Longrightarrow>
   notarySet a' = notarySet a \<and> aID a' = aID a"
proof (induction cs arbitrary: a)
  case Nil
  then show ?case by simp
next
  case (Cons c cs)
  from Cons.prems obtain a1 where s: "step e a c = Some a1" and r: "run e a1 cs = Some a'"
    by (auto split: option.splits)
  from Cons.prems s have "notarySet a1 = notarySet a \<and> aID a1 = aID a"
    using step_keeps [of c e a a1] by simp
  moreover from Cons.IH [OF _ r] Cons.prems have "notarySet a' = notarySet a1 \<and> aID a' = aID a1"
    by simp
  ultimately show ?case by simp
qed

text \<open>
  C10. \<^verbatim>\<open>stop\<close> returns, and from then until the next \<^verbatim>\<open>restart\<close>, whatever calls of
  \<^verbatim>\<open>processVote\<close>, \<^verbatim>\<open>processBlock\<close> and \<^verbatim>\<open>done\<close> come in between, the notary set is
  empty and the position is the stop sentinel: every \<^verbatim>\<open>processVote\<close> returns
  \<^verbatim>\<open>ErrNotInNotarySet\<close> and leaves the state as it was (nothing is buffered, nothing
  is recorded), while \<^verbatim>\<open>processBlock\<close> appends every block of another position to the
  pending blocks.
\<close>

theorem stopped_rejects_votes:
  "fst (stop e ords now a) = Returned () \<and>
   (run e (snd (stop e ords now a)) cs = Some a' \<and> \<not> list_ex isRestart cs \<longrightarrow>
      notarySet a' = {||} \<and> isStop (agreementID a') \<and>
      processVote e ord now' a' v = (Returned (Some ErrNotInNotarySet), a') \<and>
      (BlockPosition b \<noteq> agreementID a' \<longrightarrow>
         processBlock e now' a' b = (None, a'\<lparr>pendingBlock := pendingBlock a' @ [(b, now')]\<rparr>)))"
proof -
  have "notarySet a' = {||} \<and> aID a' = stopPosition"
    if "run e (snd (stop e ords now a)) cs = Some a'" "\<not> list_ex isRestart cs"
    using run_keeps [of cs e _ a'] that by (simp add: stop_eq resetAgreement_def list_ex_iff)
  then show ?thesis
    by (auto simp: stop_eq processVote_def sanityCheck_def processBlock_def agreementID_def)
qed

theorem stopped_rejects_votes_witness:
  "(let a = snd (stop testEnv (\<lambda>_. testOrder) 5 testStart);
        b = testBlock 1 7;
        v = testVote 2 1 VoteCom 7;
        cs = [ProcessVote testOrder 6 (testVote 1 1 VoteCom 7), ProcessBlock 7 b, Done];
        a' = the (run testEnv a cs) in
      run testEnv a cs \<noteq> None \<and> \<not> list_ex isRestart cs \<and>
      BlockPosition b \<noteq> agreementID a' \<and>
      pendingBlock a' = [(b, 7)] \<and> pendingVote a' = [] \<and>
      processVote testEnv testOrder 8 a' v = (Returned (Some ErrNotInNotarySet), a') \<and>
      processBlock testEnv 8 a' b = (None, a'\<lparr>pendingBlock := pendingBlock a' @ [(b, 8)]\<rparr>))"
proof -
  define a where "a = snd (stop testEnv (\<lambda>_. testOrder) 5 testStart)"
  define b where "b = testBlock 1 7"
  define cs where "cs = [ProcessVote testOrder 6 (testVote 1 1 VoteCom 7), ProcessBlock 7 b, Done]"
  define a' where "a' = the (run testEnv a cs)"
  have "case run testEnv a cs of None \<Rightarrow> False | Some _ \<Rightarrow> True"
    unfolding a_def b_def cs_def by code_simp
  then have r: "run testEnv a cs = Some a'"
    by (auto simp: a'_def split: option.splits)
  have n: "\<not> list_ex isRestart cs" by (simp add: cs_def)
  have p: "BlockPosition b \<noteq> agreementID a'"
    unfolding a_def b_def cs_def a'_def by code_simp
  have q: "pendingBlock a' = [(b, 7)]" "pendingVote a' = []"
    unfolding a_def b_def cs_def a'_def by code_simp+
  from stopped_rejects_votes [of testEnv "\<lambda>_. testOrder" 5 testStart cs a' testOrder 8
      "testVote 2 1 VoteCom 7" b] r n p q
  show ?thesis
    unfolding Let_def a_def [symmetric] b_def [symmetric] cs_def [symmetric] a'_def [symmetric]
    by simp
qed

subsection \<open>Fast-forward, condition 2\<close>

lemma processVote_withVote:
  "sanityCheck e a v = None \<Longrightarrow> Position v = agreementID a \<Longrightarrow> checkForkVote a v = None \<Longrightarrow>
   processVote e ord now a v = checkOutput e ord (withVote a v) v"
  by (simp add: processVote_def withVote_def)

lemma withVote_fields [simp]:
  "hasOutput (withVote a v) = hasOutput a"
  "fastForward (withVote a v) = fastForward a"
  "candidateBlock (withVote a v) = candidateBlock a"
  "notarySet (withVote a v) = notarySet a"
  "aID (withVote a v) = aID a"
  "pendingVote (withVote a v) = pendingVote a"
  "pendingBlock (withVote a v) = pendingBlock a"
  "state (withVote a v) = state a"
  "period (data (withVote a v)) = period (data a)"
  "lockRound (data (withVote a v)) = lockRound (data a)"
  "lockValue (data (withVote a v)) = lockValue (data a)"
  "requiredVote (data (withVote a v)) = requiredVote (data a)"
  "recv (data (withVote a v)) = recv (data a)"
  "blocks (data (withVote a v)) = blocks (data a)"
  "leader (data (withVote a v)) = leader (data a)"
  "ID (data (withVote a v)) = ID (data a)"
  by (simp_all add: withVote_def recordVote_def Let_def)

lemma votes_withVote:
  "votes (data (withVote a v)) (Period v) \<noteq> None"
  by (simp add: withVote_def recordVote_def Let_def)

lemma sendFastForward_None:
  "fastForward a = None \<Longrightarrow> sendFastForward a p = (Returned None, a\<lparr>fastForward := Some p\<rparr>)"
  by (simp add: sendFastForward_def)

lemma sendFastForward_Some:
  "fastForward a = Some q \<Longrightarrow> sendFastForward a p = (BlockedOnSend p, a)"
  by (simp add: sendFastForward_def)

text \<open>
  C5. A PreCommit vote that \<^verbatim>\<open>processVote\<close> accepts (it passes the sanity check, is
  for the current position and is no fork vote) in a round that has no output yet, for
  a period greater than the current one: when, with the vote stored, the PreCommit
  votes of its period have the winner \<open>h\<close>, which is not the skip hash, the lock value
  becomes \<open>h\<close>, the lock round becomes the period of the vote, and that period is sent
  on \<^verbatim>\<open>fastForward\<close>: an empty channel then holds it and the call returns \<^verbatim>\<open>nil\<close>; on
  a full channel the call waits with that value.
\<close>

theorem fast_forward_condition2:
  "sanityCheck e a v = None \<and> Position v = agreementID a \<and> checkForkVote a v = None \<and>
   \<not> hasOutput a \<and> Type v = VotePreCom \<and> Period v > period (data a) \<and>
   countVoteNoLock (data (withVote a v)) (hashOrder ord) (Period v) VotePreCom = (h, True) \<and>
   h \<noteq> skipBlockHash e \<longrightarrow>
   lockValue (data (snd (processVote e ord now a v))) = h \<and>
   lockRound (data (snd (processVote e ord now a v))) = Period v \<and>
   (case fastForward a of
      None \<Rightarrow> fst (processVote e ord now a v) = Returned None \<and>
              fastForward (snd (processVote e ord now a v)) = Some (Period v)
    | Some q \<Rightarrow> fst (processVote e ord now a v) = BlockedOnSend (Period v) \<and>
                fastForward (snd (processVote e ord now a v)) = Some q)"
proof (intro impI, elim conjE)
  assume acc: "sanityCheck e a v = None" "Position v = agreementID a" "checkForkVote a v = None"
    and rest: "\<not> hasOutput a" "Type v = VotePreCom" "Period v > period (data a)"
      "countVoteNoLock (data (withVote a v)) (hashOrder ord) (Period v) VotePreCom = (h, True)"
      "h \<noteq> skipBlockHash e"
  let ?b = "(withVote a v)\<lparr>data := (data (withVote a v))\<lparr>lockValue := h, lockRound := Period v\<rparr>\<rparr>"
  from rest(3) have np: "\<not> Period v \<le> period (data a)" by simp
  have "processVote e ord now a v = sendFastForward ?b (Period v)"
    using rest np by (simp add: processVote_withVote [OF acc] checkOutput_def checkFastForward_def)
  then show "lockValue (data (snd (processVote e ord now a v))) = h \<and>
   lockRound (data (snd (processVote e ord now a v))) = Period v \<and>
   (case fastForward a of
      None \<Rightarrow> fst (processVote e ord now a v) = Returned None \<and>
              fastForward (snd (processVote e ord now a v)) = Some (Period v)
    | Some q \<Rightarrow> fst (processVote e ord now a v) = BlockedOnSend (Period v) \<and>
                fastForward (snd (processVote e ord now a v)) = Some q)"
    by (simp add: sendFastForward_def split: option.splits)
qed

theorem fast_forward_condition2_witness:
  "(let a = testVotes testStart [testVote 1 3 VotePreCom 7, testVote 2 3 VotePreCom 7];
        v = testVote 3 3 VotePreCom 7 in
      period (data a) = 1 \<and> lockRound (data a) = 1 \<and> fastForward a = None \<and>
      sanityCheck testEnv a v = None \<and> Position v = agreementID a \<and> checkForkVote a v = None \<and>
      \<not> hasOutput a \<and> Type v = VotePreCom \<and> Period v > period (data a) \<and>
      countVoteNoLock (data (withVote a v)) (hashOrder testOrder) (Period v) VotePreCom = (7, True) \<and>
      7 \<noteq> skipBlockHash testEnv \<and>
      lockValue (data (snd (processVote testEnv testOrder 0 a v))) = 7 \<and>
      lockRound (data (snd (processVote testEnv testOrder 0 a v))) = 3 \<and>
      fst (processVote testEnv testOrder 0 a v) = Returned None \<and>
      fastForward (snd (processVote testEnv testOrder 0 a v)) = Some 3)"
proof -
  define a where "a = testVotes testStart [testVote 1 3 VotePreCom 7, testVote 2 3 VotePreCom 7]"
  define v where "v = testVote 3 3 VotePreCom 7"
  have h: "period (data a) = 1" "lockRound (data a) = 1" "fastForward a = None"
    "sanityCheck testEnv a v = None" "Position v = agreementID a" "checkForkVote a v = None"
    "\<not> hasOutput a" "Type v = VotePreCom" "Period v > period (data a)"
    "countVoteNoLock (data (withVote a v)) (hashOrder testOrder) (Period v) VotePreCom = (7, True)"
    "7 \<noteq> skipBlockHash testEnv" "Period v = 3"
    unfolding a_def v_def by code_simp+
  from fast_forward_condition2 [of testEnv a v testOrder 7 0] h
  show ?thesis
    unfolding Let_def a_def [symmetric] v_def [symmetric] by simp
qed

subsection \<open>Fast-forward, condition 3\<close>

lemma set_addPullBlocks:
  "set (addPullBlocks e a pref m) =
     {h. h \<noteq> nullBlockHash e \<and> h \<noteq> skipBlockHash e \<and> candidateBlock a h = None \<and>
         (\<exists>n v. DAList.lookup m n = Some v \<and> BlockHash v = h)}"
proof -
  have "(\<exists>n v. DAList.lookup m n = Some v \<and> BlockHash v = h) \<longleftrightarrow>
        (\<exists>nv\<in>set (DAList.impl_of m). BlockHash (snd nv) = h)" for h
    by (force simp: DAList.lookup.rep_eq)
  then show ?thesis
    by (auto simp: addPullBlocks_def set_goRange findCandidateBlock_def)
qed

lemma missingHashes_eq:
  "votes (data a) p = Some vs \<Longrightarrow>
   missingHashes e a p =
     set (addPullBlocks e a p1 (vs VoteInit) @ addPullBlocks e a p2 (vs VotePreCom)
          @ addPullBlocks e a p3 (vs VoteCom))"
  by (auto simp: missingHashes_def recordedVote_def set_addPullBlocks)

lemma condition3_fires:
  assumes "Type v = VoteCom" "Period v \<ge> period (data a)"
    "voteCount (data a) (Period v) VoteCom \<ge> requiredVote (data a)"
    "votes (data a) (Period v) \<noteq> None"
  shows "\<exists>hashes. set hashes = missingHashes e a (Period v) \<and>
           condition3 e ord a v =
             sendFastForward (a\<lparr>data := (data a)\<lparr>recv := recv (data a) @ [PullBlocks hashes]\<rparr>\<rparr>)
               (Period v + 1)"
proof -
  from assms(4) obtain vs where vs: "votes (data a) (Period v) = Some vs" by auto
  with assms(3) have len: "requiredVote (data a) \<le> int (length (DAList.impl_of (vs VoteCom)))"
    by (simp add: voteCount_def)
  let ?hs = "addPullBlocks e a (nodeOrder ord VoteInit) (vs VoteInit)
           @ addPullBlocks e a (nodeOrder ord VotePreCom) (vs VotePreCom)
           @ addPullBlocks e a (nodeOrder ord VoteCom) (vs VoteCom)"
  have "set ?hs = missingHashes e a (Period v)"
    by (rule missingHashes_eq [OF vs, symmetric])
  moreover have "condition3 e ord a v =
      sendFastForward (a\<lparr>data := (data a)\<lparr>recv := recv (data a) @ [PullBlocks ?hs]\<rparr>\<rparr>)
        (Period v + 1)"
    using assms(1,2) len vs by (simp add: condition3_def Let_def)
  ultimately show ?thesis by blast
qed

lemma mset_concat_filter_keys:
  "distinct ks \<Longrightarrow>
   mset (concat (map (\<lambda>k. filter (\<lambda>kv. fst kv = k) xs) ks))
     = filter_mset (\<lambda>kv. fst kv \<in> set ks) (mset xs)"
proof (induction ks)
  case Nil
  then show ?case by simp
next
  case (Cons k ks)
  then have "k \<notin> set ks" and IH: "mset (concat (map (\<lambda>k. filter (\<lambda>kv. fst kv = k) xs) ks))
     = filter_mset (\<lambda>kv. fst kv \<in> set ks) (mset xs)" by simp_all
  have "filter_mset (\<lambda>kv. fst kv = k) (mset xs) + filter_mset (\<lambda>kv. fst kv \<in> set ks) (mset xs)
      = filter_mset (\<lambda>kv. fst kv \<in> set (k # ks)) (mset xs)"
    using \<open>k \<notin> set ks\<close> by (induction xs) auto
  then show ?case by (simp add: IH)
qed

lemma mset_goRange: "mset (goRange pref xs) = mset xs"
proof -
  have "mset (goRange pref xs) =
      filter_mset (\<lambda>kv. fst kv \<in> set pref) (mset xs) + filter_mset (\<lambda>kv. fst kv \<notin> set pref) (mset xs)"
    by (simp add: goRange_def mset_concat_filter_keys)
  then show ?thesis by simp
qed

lemma mset_addPullBlocks:
  "mset (addPullBlocks e a pref m)
     = mset (filter (wantedHash e a) (map (\<lambda>nv. BlockHash (snd nv)) (DAList.impl_of m)))"
proof -
  let ?f = "\<lambda>nv :: nodeID \<times> vote. BlockHash (snd nv)"
  have "mset (addPullBlocks e a pref m)
      = image_mset ?f (filter_mset (\<lambda>nv. wantedHash e a (?f nv)) (mset (goRange pref (DAList.impl_of m))))"
    by (simp add: addPullBlocks_def wantedHash_def findCandidateBlock_def)
  also have "\<dots> = image_mset ?f (filter_mset (\<lambda>nv. wantedHash e a (?f nv)) (mset (DAList.impl_of m)))"
    by (simp only: mset_goRange)
  also have "\<dots> = mset (filter (wantedHash e a) (map ?f (DAList.impl_of m)))"
    by (simp add: filter_map comp_def)
  finally show ?thesis .
qed

lemma condition3_fires_parts:
  assumes "Type v = VoteCom" "Period v \<ge> period (data a)"
    "voteCount (data a) (Period v) VoteCom \<ge> requiredVote (data a)"
    "votes (data a) (Period v) \<noteq> None"
  shows "\<exists>hi hp hc.
           mset hi = mset (filter (wantedHash e a) (hashesOf (data a) (Period v) VoteInit)) \<and>
           mset hp = mset (filter (wantedHash e a) (hashesOf (data a) (Period v) VotePreCom)) \<and>
           mset hc = mset (filter (wantedHash e a) (hashesOf (data a) (Period v) VoteCom)) \<and>
           set (hi @ hp @ hc) = missingHashes e a (Period v) \<and>
           condition3 e ord a v =
             sendFastForward
               (a\<lparr>data := (data a)\<lparr>recv := recv (data a) @ [PullBlocks (hi @ hp @ hc)]\<rparr>\<rparr>)
               (Period v + 1)"
proof -
  from assms(4) obtain vs where vs: "votes (data a) (Period v) = Some vs" by auto
  with assms(3) have len: "requiredVote (data a) \<le> int (length (DAList.impl_of (vs VoteCom)))"
    by (simp add: voteCount_def)
  let ?hi = "addPullBlocks e a (nodeOrder ord VoteInit) (vs VoteInit)"
  let ?hp = "addPullBlocks e a (nodeOrder ord VotePreCom) (vs VotePreCom)"
  let ?hc = "addPullBlocks e a (nodeOrder ord VoteCom) (vs VoteCom)"
  have 1: "mset ?hi = mset (filter (wantedHash e a) (hashesOf (data a) (Period v) VoteInit))"
    "mset ?hp = mset (filter (wantedHash e a) (hashesOf (data a) (Period v) VotePreCom))"
    "mset ?hc = mset (filter (wantedHash e a) (hashesOf (data a) (Period v) VoteCom))"
    by (simp_all only: mset_addPullBlocks hashesOf_def vs option.case)
  have 2: "set (?hi @ ?hp @ ?hc) = missingHashes e a (Period v)"
    by (rule missingHashes_eq [OF vs, symmetric])
  have 3: "condition3 e ord a v =
      sendFastForward (a\<lparr>data := (data a)\<lparr>recv := recv (data a) @ [PullBlocks (?hi @ ?hp @ ?hc)]\<rparr>\<rparr>)
        (Period v + 1)"
    using assms(1,2) len vs by (simp add: condition3_def Let_def)
  from 1 2 3 show ?thesis by blast
qed

text \<open>
  C6, as the code has it. A Commit vote that \<^verbatim>\<open>processVote\<close> accepts in a round that has
  no output yet and that does not confirm a block itself (with the vote stored, the Commit
  votes of its period have no winner, or the winner is the skip hash), for a period that
  is at least the current one: when the number of Commit votes recorded for its period,
  the vote included, reaches \<open>requiredVote\<close>, there is exactly one more call to the
  receiver, \<^verbatim>\<open>PullBlocks\<close>. Its argument is a list in three parts, for the Init, the
  PreCommit and the Commit votes of the period in this order; each part has one entry for
  each vote of that type whose block hash is neither the null hash nor the skip hash nor
  the hash of a candidate block, namely that hash, in the order in which the runtime
  visits the votes. So a hash that several votes name is repeated, once for each of them;
  as a set, the list is the set of the distinct hashes that the spec describes. Then the
  period of the vote plus one is sent on \<^verbatim>\<open>fastForward\<close>: an empty channel then holds it
  and the call returns \<^verbatim>\<open>nil\<close>; on a full channel the call waits with that value.
\<close>

theorem commit_quorum_pull_blocks:
  "sanityCheck e a v = None \<and> Position v = agreementID a \<and> checkForkVote a v = None \<and>
   \<not> hasOutput a \<and> Type v = VoteCom \<and> Period v \<ge> period (data a) \<and>
   countVoteNoLock (data (withVote a v)) (hashOrder ord) (Period v) VoteCom = (h, ok) \<and>
   (ok \<longrightarrow> h = skipBlockHash e) \<and>
   voteCount (data (withVote a v)) (Period v) VoteCom \<ge> requiredVote (data a) \<longrightarrow>
   (\<exists>hi hp hc.
      recv (data (snd (processVote e ord now a v))) = recv (data a) @ [PullBlocks (hi @ hp @ hc)] \<and>
      mset hi = mset (filter (wantedHash e a) (hashesOf (data (withVote a v)) (Period v) VoteInit)) \<and>
      mset hp = mset (filter (wantedHash e a) (hashesOf (data (withVote a v)) (Period v) VotePreCom)) \<and>
      mset hc = mset (filter (wantedHash e a) (hashesOf (data (withVote a v)) (Period v) VoteCom)) \<and>
      set (hi @ hp @ hc) = missingHashes e (withVote a v) (Period v)) \<and>
   (case fastForward a of
      None \<Rightarrow> fst (processVote e ord now a v) = Returned None \<and>
              fastForward (snd (processVote e ord now a v)) = Some (Period v + 1)
    | Some q \<Rightarrow> fst (processVote e ord now a v) = BlockedOnSend (Period v + 1) \<and>
                fastForward (snd (processVote e ord now a v)) = Some q)"
proof (intro impI, elim conjE)
  assume acc: "sanityCheck e a v = None" "Position v = agreementID a" "checkForkVote a v = None"
    and rest: "\<not> hasOutput a" "Type v = VoteCom" "Period v \<ge> period (data a)"
      "countVoteNoLock (data (withVote a v)) (hashOrder ord) (Period v) VoteCom = (h, ok)"
      "ok \<longrightarrow> h = skipBlockHash e"
      "voteCount (data (withVote a v)) (Period v) VoteCom \<ge> requiredVote (data a)"
  let ?b = "withVote a v"
  have w: "wantedHash e ?b = wantedHash e a"
    by (intro ext) (simp add: wantedHash_def)
  from condition3_fires_parts [of v ?b e ord] rest votes_withVote [of a v]
  obtain hi hp hc where
    m: "mset hi = mset (filter (wantedHash e a) (hashesOf (data ?b) (Period v) VoteInit))"
       "mset hp = mset (filter (wantedHash e a) (hashesOf (data ?b) (Period v) VotePreCom))"
       "mset hc = mset (filter (wantedHash e a) (hashesOf (data ?b) (Period v) VoteCom))"
       "set (hi @ hp @ hc) = missingHashes e ?b (Period v)"
    and c3: "condition3 e ord ?b v =
       sendFastForward (?b\<lparr>data := (data ?b)\<lparr>recv := recv (data ?b) @ [PullBlocks (hi @ hp @ hc)]\<rparr>\<rparr>)
         (Period v + 1)"
    unfolding w by auto
  have "processVote e ord now a v = condition3 e ord ?b v"
    using rest by (auto simp: processVote_withVote [OF acc] checkOutput_def checkFastForward_def)
  with c3 have pv: "processVote e ord now a v =
       sendFastForward (?b\<lparr>data := (data ?b)\<lparr>recv := recv (data a) @ [PullBlocks (hi @ hp @ hc)]\<rparr>\<rparr>)
         (Period v + 1)"
    by simp
  have "recv (data (snd (processVote e ord now a v))) = recv (data a) @ [PullBlocks (hi @ hp @ hc)]"
    unfolding pv by (simp add: sendFastForward_def split: option.splits)
  with m have 1: "\<exists>hi hp hc.
      recv (data (snd (processVote e ord now a v))) = recv (data a) @ [PullBlocks (hi @ hp @ hc)] \<and>
      mset hi = mset (filter (wantedHash e a) (hashesOf (data (withVote a v)) (Period v) VoteInit)) \<and>
      mset hp = mset (filter (wantedHash e a) (hashesOf (data (withVote a v)) (Period v) VotePreCom)) \<and>
      mset hc = mset (filter (wantedHash e a) (hashesOf (data (withVote a v)) (Period v) VoteCom)) \<and>
      set (hi @ hp @ hc) = missingHashes e (withVote a v) (Period v)"
    by blast
  have 2: "(case fastForward a of
      None \<Rightarrow> fst (processVote e ord now a v) = Returned None \<and>
              fastForward (snd (processVote e ord now a v)) = Some (Period v + 1)
    | Some q \<Rightarrow> fst (processVote e ord now a v) = BlockedOnSend (Period v + 1) \<and>
                fastForward (snd (processVote e ord now a v)) = Some q)"
    unfolding pv by (simp add: sendFastForward_def split: option.splits)
  from 1 2 show "(\<exists>hi hp hc.
      recv (data (snd (processVote e ord now a v))) = recv (data a) @ [PullBlocks (hi @ hp @ hc)] \<and>
      mset hi = mset (filter (wantedHash e a) (hashesOf (data (withVote a v)) (Period v) VoteInit)) \<and>
      mset hp = mset (filter (wantedHash e a) (hashesOf (data (withVote a v)) (Period v) VotePreCom)) \<and>
      mset hc = mset (filter (wantedHash e a) (hashesOf (data (withVote a v)) (Period v) VoteCom)) \<and>
      set (hi @ hp @ hc) = missingHashes e (withVote a v) (Period v)) \<and>
   (case fastForward a of
      None \<Rightarrow> fst (processVote e ord now a v) = Returned None \<and>
              fastForward (snd (processVote e ord now a v)) = Some (Period v + 1)
    | Some q \<Rightarrow> fst (processVote e ord now a v) = BlockedOnSend (Period v + 1) \<and>
                fastForward (snd (processVote e ord now a v)) = Some q)"
    by simp
qed

theorem commit_quorum_pull_blocks_counterexample:
  "sanityCheck testEnv splitCommitState (testVote 3 1 VoteCom 11) = None \<and>
   Position (testVote 3 1 VoteCom 11) = agreementID splitCommitState \<and>
   checkForkVote splitCommitState (testVote 3 1 VoteCom 11) = None \<and>
   \<not> hasOutput splitCommitState \<and>
   period (data splitCommitState) = 1 \<and> requiredVote (data splitCommitState) = 3 \<and>
   voteCount (data (withVote splitCommitState (testVote 3 1 VoteCom 11))) 1 VoteCom = 3 \<and>
   hashesOf (data (withVote splitCommitState (testVote 3 1 VoteCom 11))) 1 VoteInit = [9] \<and>
   hashesOf (data (withVote splitCommitState (testVote 3 1 VoteCom 11))) 1 VotePreCom = [7] \<and>
   hashesOf (data (withVote splitCommitState (testVote 3 1 VoteCom 11))) 1 VoteCom = [7, 9, 11] \<and>
   candidateBlock splitCommitState 7 = Some (testBlock 1 7) \<and>
   candidateBlock splitCommitState 9 = None \<and> candidateBlock splitCommitState 11 = None \<and>
   recv (data splitCommitState) = [] \<and>
   recv (data (snd (processVote testEnv testOrder 0 splitCommitState (testVote 3 1 VoteCom 11))))
     = [PullBlocks [9, 9, 11]] \<and>
   \<not> distinct [9, 9, 11 :: hash]"
  by code_simp

theorem commit_quorum_pull_blocks_witness:
  "sanityCheck testEnv splitCommitState (testVote 3 1 VoteCom 11) = None \<and>
   Position (testVote 3 1 VoteCom 11) = agreementID splitCommitState \<and>
   checkForkVote splitCommitState (testVote 3 1 VoteCom 11) = None \<and>
   \<not> hasOutput splitCommitState \<and> Type (testVote 3 1 VoteCom 11) = VoteCom \<and>
   Period (testVote 3 1 VoteCom 11) \<ge> period (data splitCommitState) \<and>
   countVoteNoLock (data (withVote splitCommitState (testVote 3 1 VoteCom 11)))
     (hashOrder testOrder) 1 VoteCom = (0, False) \<and>
   voteCount (data (withVote splitCommitState (testVote 3 1 VoteCom 11))) 1 VoteCom
     \<ge> requiredVote (data splitCommitState) \<and>
   fastForward splitCommitState = None \<and> recv (data splitCommitState) = [] \<and>
   filter (wantedHash testEnv splitCommitState)
     (hashesOf (data (withVote splitCommitState (testVote 3 1 VoteCom 11))) 1 VoteInit) = [9] \<and>
   filter (wantedHash testEnv splitCommitState)
     (hashesOf (data (withVote splitCommitState (testVote 3 1 VoteCom 11))) 1 VotePreCom) = [] \<and>
   filter (wantedHash testEnv splitCommitState)
     (hashesOf (data (withVote splitCommitState (testVote 3 1 VoteCom 11))) 1 VoteCom) = [9, 11] \<and>
   recv (data (snd (processVote testEnv testOrder 0 splitCommitState (testVote 3 1 VoteCom 11))))
     = [PullBlocks ([9] @ [] @ [9, 11])] \<and>
   missingHashes testEnv (withVote splitCommitState (testVote 3 1 VoteCom 11)) 1 = {9, 11} \<and>
   fst (processVote testEnv testOrder 0 splitCommitState (testVote 3 1 VoteCom 11)) = Returned None \<and>
   fastForward (snd (processVote testEnv testOrder 0 splitCommitState (testVote 3 1 VoteCom 11)))
     = Some 2"
proof -
  define a where "a = splitCommitState"
  define v where "v = testVote 3 1 VoteCom 11"
  have h: "sanityCheck testEnv a v = None" "Position v = agreementID a" "checkForkVote a v = None"
    "\<not> hasOutput a" "Type v = VoteCom" "Period v \<ge> period (data a)"
    "countVoteNoLock (data (withVote a v)) (hashOrder testOrder) (Period v) VoteCom = (0, False)"
    "voteCount (data (withVote a v)) (Period v) VoteCom \<ge> requiredVote (data a)"
    "fastForward a = None" "recv (data a) = []"
    unfolding a_def v_def by code_simp+
  have k: "Period v = 1"
    "filter (wantedHash testEnv a) (hashesOf (data (withVote a v)) 1 VoteInit) = [9]"
    "filter (wantedHash testEnv a) (hashesOf (data (withVote a v)) 1 VotePreCom) = []"
    "filter (wantedHash testEnv a) (hashesOf (data (withVote a v)) 1 VoteCom) = [9, 11]"
    "recv (data (snd (processVote testEnv testOrder 0 a v))) = [PullBlocks [9, 9, 11]]"
    unfolding a_def v_def by code_simp+
  from commit_quorum_pull_blocks [of testEnv a v testOrder 0 False 0] h
  obtain hi hp hc where
    r: "recv (data (snd (processVote testEnv testOrder 0 a v))) = recv (data a) @ [PullBlocks (hi @ hp @ hc)]"
    and s: "set (hi @ hp @ hc) = missingHashes testEnv (withVote a v) (Period v)"
    and f: "fst (processVote testEnv testOrder 0 a v) = Returned None"
      "fastForward (snd (processVote testEnv testOrder 0 a v)) = Some (Period v + 1)"
    by auto
  from r k(5) h(10) have "hi @ hp @ hc = [9, 9, 11]" by simp
  with s k(1) have m: "missingHashes testEnv (withVote a v) 1 = {9, 11}" by auto
  from h k m f show ?thesis
    unfolding a_def [symmetric] v_def [symmetric] by simp
qed

subsection \<open>Fast-forward, condition 1\<close>

text \<open>
  C4, as the code has it. A PreCommit vote that \<^verbatim>\<open>processVote\<close> accepts in a round that
  has no output yet: when, with the vote stored, the PreCommit votes of its period have
  the winner \<open>h\<close>, which is not the skip hash, the current period is at least the period
  of the vote, the period of the vote is greater than the lock round, and the block hash
  of the vote itself (not the winner) differs from the lock value, then the lock value
  becomes \<open>h\<close>, the lock round becomes the period of the vote, and the current period
  plus one is sent on \<^verbatim>\<open>fastForward\<close>: an empty channel then holds it and the call
  returns \<^verbatim>\<open>nil\<close>; on a full channel the call waits with that value.
\<close>

theorem fast_forward_condition1:
  "sanityCheck e a v = None \<and> Position v = agreementID a \<and> checkForkVote a v = None \<and>
   \<not> hasOutput a \<and> Type v = VotePreCom \<and>
   countVoteNoLock (data (withVote a v)) (hashOrder ord) (Period v) VotePreCom = (h, True) \<and>
   h \<noteq> skipBlockHash e \<and>
   period (data a) \<ge> Period v \<and> Period v > lockRound (data a) \<and>
   BlockHash v \<noteq> lockValue (data a) \<longrightarrow>
   lockValue (data (snd (processVote e ord now a v))) = h \<and>
   lockRound (data (snd (processVote e ord now a v))) = Period v \<and>
   (case fastForward a of
      None \<Rightarrow> fst (processVote e ord now a v) = Returned None \<and>
              fastForward (snd (processVote e ord now a v)) = Some (period (data a) + 1)
    | Some q \<Rightarrow> fst (processVote e ord now a v) = BlockedOnSend (period (data a) + 1) \<and>
                fastForward (snd (processVote e ord now a v)) = Some q)"
proof (intro impI, elim conjE)
  assume acc: "sanityCheck e a v = None" "Position v = agreementID a" "checkForkVote a v = None"
    and rest: "\<not> hasOutput a" "Type v = VotePreCom"
      "countVoteNoLock (data (withVote a v)) (hashOrder ord) (Period v) VotePreCom = (h, True)"
      "h \<noteq> skipBlockHash e" "period (data a) \<ge> Period v" "Period v > lockRound (data a)"
      "BlockHash v \<noteq> lockValue (data a)"
  let ?b = "(withVote a v)\<lparr>data := (data (withVote a v))\<lparr>lockValue := h, lockRound := Period v\<rparr>\<rparr>"
  have "processVote e ord now a v = sendFastForward ?b (period (data a) + 1)"
    using rest by (simp add: processVote_withVote [OF acc] checkOutput_def checkFastForward_def)
  then show "lockValue (data (snd (processVote e ord now a v))) = h \<and>
   lockRound (data (snd (processVote e ord now a v))) = Period v \<and>
   (case fastForward a of
      None \<Rightarrow> fst (processVote e ord now a v) = Returned None \<and>
              fastForward (snd (processVote e ord now a v)) = Some (period (data a) + 1)
    | Some q \<Rightarrow> fst (processVote e ord now a v) = BlockedOnSend (period (data a) + 1) \<and>
                fastForward (snd (processVote e ord now a v)) = Some q)"
    by (simp add: sendFastForward_def split: option.splits)
qed

theorem fast_forward_condition1_witness:
  "(let a = the (run testEnv testStart
                  [ProcessVote testOrder 0 (testVote 1 1 VoteCom (- 1)),
                   ProcessVote testOrder 0 (testVote 2 1 VoteCom (- 1)),
                   ProcessVote testOrder 0 (testVote 3 1 VoteCom (- 1)),
                   Done,
                   ProcessVote testOrder 0 (testVote 1 2 VotePreCom 7),
                   ProcessVote testOrder 0 (testVote 2 2 VotePreCom 7)]);
        v = testVote 3 2 VotePreCom 7 in
      period (data a) = 2 \<and> lockRound (data a) = 1 \<and> lockValue (data a) = 0 \<and>
      fastForward a = None \<and>
      sanityCheck testEnv a v = None \<and> Position v = agreementID a \<and> checkForkVote a v = None \<and>
      \<not> hasOutput a \<and> Type v = VotePreCom \<and>
      countVoteNoLock (data (withVote a v)) (hashOrder testOrder) (Period v) VotePreCom = (7, True) \<and>
      7 \<noteq> skipBlockHash testEnv \<and>
      period (data a) \<ge> Period v \<and> Period v > lockRound (data a) \<and>
      BlockHash v \<noteq> lockValue (data a) \<and>
      lockValue (data (snd (processVote testEnv testOrder 0 a v))) = 7 \<and>
      lockRound (data (snd (processVote testEnv testOrder 0 a v))) = 2 \<and>
      fst (processVote testEnv testOrder 0 a v) = Returned None \<and>
      fastForward (snd (processVote testEnv testOrder 0 a v)) = Some 3)"
proof -
  define a where "a = the (run testEnv testStart
                  [ProcessVote testOrder 0 (testVote 1 1 VoteCom (- 1)),
                   ProcessVote testOrder 0 (testVote 2 1 VoteCom (- 1)),
                   ProcessVote testOrder 0 (testVote 3 1 VoteCom (- 1)),
                   Done,
                   ProcessVote testOrder 0 (testVote 1 2 VotePreCom 7),
                   ProcessVote testOrder 0 (testVote 2 2 VotePreCom 7)])"
  define v where "v = testVote 3 2 VotePreCom 7"
  have h: "period (data a) = 2" "lockRound (data a) = 1" "lockValue (data a) = 0"
    "fastForward a = None"
    "sanityCheck testEnv a v = None" "Position v = agreementID a" "checkForkVote a v = None"
    "\<not> hasOutput a" "Type v = VotePreCom"
    "countVoteNoLock (data (withVote a v)) (hashOrder testOrder) (Period v) VotePreCom = (7, True)"
    "7 \<noteq> skipBlockHash testEnv"
    "period (data a) \<ge> Period v" "Period v > lockRound (data a)"
    "BlockHash v \<noteq> lockValue (data a)" "Period v = 2"
    unfolding a_def v_def by code_simp+
  from fast_forward_condition1 [of testEnv a v testOrder 7 0] h
  show ?thesis
    unfolding Let_def a_def [symmetric] v_def [symmetric] by simp
qed

theorem fast_forward_condition1_counterexample:
  "\<not> Option.is_none (run testEnv testStart lockedOnNine) \<and>
   sanityCheck testEnv lockedOnNineState (testVote 4 4 VotePreCom 9) = None \<and>
   Position (testVote 4 4 VotePreCom 9) = agreementID lockedOnNineState \<and>
   checkForkVote lockedOnNineState (testVote 4 4 VotePreCom 9) = None \<and>
   \<not> hasOutput lockedOnNineState \<and> fastForward lockedOnNineState = None \<and>
   countVoteNoLock (data (withVote lockedOnNineState (testVote 4 4 VotePreCom 9)))
     (hashOrder testOrder) 4 VotePreCom = (7, True) \<and>
   7 \<noteq> skipBlockHash testEnv \<and>
   period (data lockedOnNineState) = 5 \<and> lockRound (data lockedOnNineState) = 3 \<and>
   lockValue (data lockedOnNineState) = 9 \<and>
   fst (processVote testEnv testOrder 0 lockedOnNineState (testVote 4 4 VotePreCom 9))
     = Returned None \<and>
   lockValue (data (snd (processVote testEnv testOrder 0 lockedOnNineState
     (testVote 4 4 VotePreCom 9)))) = 9 \<and>
   lockRound (data (snd (processVote testEnv testOrder 0 lockedOnNineState
     (testVote 4 4 VotePreCom 9)))) = 3 \<and>
   fastForward (snd (processVote testEnv testOrder 0 lockedOnNineState
     (testVote 4 4 VotePreCom 9))) = None"
  by code_simp

subsection \<open>The cases of processVote\<close>

lemma condition3_cases [consumes 1, case_names unchanged pull]:
  assumes "votes (data a) (Period v) \<noteq> None"
  obtains (unchanged) "condition3 e ord a v = (Returned None, a)"
  | (pull) hs where "Type v = VoteCom"
      "condition3 e ord a v =
         sendFastForward (a\<lparr>data := (data a)\<lparr>recv := recv (data a) @ [PullBlocks hs]\<rparr>\<rparr>)
           (Period v + 1)"
proof -
  from assms obtain vs where vs: "votes (data a) (Period v) = Some vs" by auto
  show ?thesis
  proof (cases "Type v = VoteCom \<and> Period v \<ge> period (data a) \<and>
             int (length (DAList.impl_of (vs VoteCom))) \<ge> requiredVote (data a)")
    case True
    then have "condition3 e ord a v =
         sendFastForward (a\<lparr>data := (data a)\<lparr>recv := recv (data a) @
            [PullBlocks (addPullBlocks e a (nodeOrder ord VoteInit) (vs VoteInit)
                        @ addPullBlocks e a (nodeOrder ord VotePreCom) (vs VotePreCom)
                        @ addPullBlocks e a (nodeOrder ord VoteCom) (vs VoteCom))]\<rparr>\<rparr>)
           (Period v + 1)"
      by (simp add: condition3_def vs Let_def)
    with True show ?thesis by (auto intro: pull)
  next
    case False
    have "condition3 e ord a v = (Returned None, a)"
      unfolding condition3_def vs option.case by (rule if_not_P [OF False])
    then show ?thesis by (rule unchanged)
  qed
qed

lemma checkFastForward_cases [consumes 1, case_names unchanged lock1 lock2 pull]:
  assumes "votes (data a) (Period v) \<noteq> None"
  obtains (unchanged) "checkFastForward e ord a v = (Returned None, a)"
  | (lock1) h where "Type v = VotePreCom" "Period v \<le> period (data a)"
      "lockRound (data a) < Period v"
      "checkFastForward e ord a v =
         sendFastForward (a\<lparr>data := (data a)\<lparr>lockValue := h, lockRound := Period v\<rparr>\<rparr>)
           (period (data a) + 1)"
  | (lock2) h where "Type v = VotePreCom" "period (data a) < Period v"
      "checkFastForward e ord a v =
         sendFastForward (a\<lparr>data := (data a)\<lparr>lockValue := h, lockRound := Period v\<rparr>\<rparr>)
           (Period v)"
  | (pull) hs where "Type v = VoteCom"
      "checkFastForward e ord a v =
         sendFastForward (a\<lparr>data := (data a)\<lparr>recv := recv (data a) @ [PullBlocks hs]\<rparr>\<rparr>)
           (Period v + 1)"
proof -
  obtain h ok where c: "countVoteNoLock (data a) (hashOrder ord) (Period v) (Type v) = (h, ok)"
    by (cases "countVoteNoLock (data a) (hashOrder ord) (Period v) (Type v)")
  define C0 where "C0 \<longleftrightarrow> ok \<and> h \<noteq> skipBlockHash e"
  define C1 where "C1 \<longleftrightarrow> period (data a) \<ge> Period v \<and> Period v > lockRound (data a) \<and>
                  BlockHash v \<noteq> lockValue (data a)"
  have eq: "checkFastForward e ord a v =
     (if Type v = VotePreCom then
        if C0 then
          if C1 then sendFastForward
                      (a\<lparr>data := (data a)\<lparr>lockValue := h, lockRound := Period v\<rparr>\<rparr>)
                      (period (data a) + 1)
          else if Period v > period (data a)
          then sendFastForward
                      (a\<lparr>data := (data a)\<lparr>lockValue := h, lockRound := Period v\<rparr>\<rparr>)
                      (Period v)
          else condition3 e ord a v
        else condition3 e ord a v
      else condition3 e ord a v)"
    unfolding checkFastForward_def c C0_def C1_def by simp
  consider (c1) "Type v = VotePreCom" "Period v \<le> period (data a)" "lockRound (data a) < Period v"
      "checkFastForward e ord a v =
         sendFastForward (a\<lparr>data := (data a)\<lparr>lockValue := h, lockRound := Period v\<rparr>\<rparr>)
           (period (data a) + 1)"
    | (c2) "Type v = VotePreCom" "period (data a) < Period v"
      "checkFastForward e ord a v =
         sendFastForward (a\<lparr>data := (data a)\<lparr>lockValue := h, lockRound := Period v\<rparr>\<rparr>)
           (Period v)"
    | (c3) "checkFastForward e ord a v = condition3 e ord a v"
  proof (cases "Type v = VotePreCom")
    case False
    then show ?thesis using eq by (intro c3) simp
  next
    case T: True
    show ?thesis
    proof (cases C0)
      case False
      then show ?thesis using eq T by (intro c3) simp
    next
      case C0: True
      show ?thesis
      proof (cases C1)
        case True
        then show ?thesis using eq T C0 by (intro c1) (simp_all add: C1_def)
      next
        case C1: False
        show ?thesis
        proof (cases "Period v > period (data a)")
          case True
          then show ?thesis using eq T C0 C1 by (intro c2) simp_all
        next
          case False
          then show ?thesis using eq T C0 C1 by (intro c3) simp
        qed
      qed
    qed
  qed
  then show ?thesis
  proof cases
    case c1 then show ?thesis by (rule lock1)
  next
    case c2 then show ?thesis by (rule lock2)
  next
    case c3
    from assms show ?thesis
    proof (cases rule: condition3_cases [where e = e and ord = ord])
      case unchanged
      with c3 show ?thesis by (auto intro: that(1))
    next
      case (pull hs)
      with c3 show ?thesis by (auto intro: that(4))
    qed
  qed
qed

lemma checkOutput_cases [consumes 1, case_names confirm ignored unchanged lock1 lock2 pull]:
  assumes "votes (data a) (Period v) \<noteq> None"
  obtains (confirm) h m where "\<not> hasOutput a" "Type v = VoteCom"
      "checkOutput e ord a v =
         (Returned None,
          a\<lparr>hasOutput := True, data := (data a)\<lparr>recv := recv (data a) @ [ConfirmBlock h m]\<rparr>\<rparr>)"
  | (ignored) "hasOutput a" "checkOutput e ord a v = (Returned None, a)"
  | (unchanged) "\<not> hasOutput a" "checkOutput e ord a v = (Returned None, a)"
  | (lock1) h where "\<not> hasOutput a" "Type v = VotePreCom" "Period v \<le> period (data a)"
      "lockRound (data a) < Period v"
      "checkOutput e ord a v =
         sendFastForward (a\<lparr>data := (data a)\<lparr>lockValue := h, lockRound := Period v\<rparr>\<rparr>)
           (period (data a) + 1)"
  | (lock2) h where "\<not> hasOutput a" "Type v = VotePreCom" "period (data a) < Period v"
      "checkOutput e ord a v =
         sendFastForward (a\<lparr>data := (data a)\<lparr>lockValue := h, lockRound := Period v\<rparr>\<rparr>)
           (Period v)"
  | (pull) hs where "\<not> hasOutput a" "Type v = VoteCom"
      "checkOutput e ord a v =
         sendFastForward (a\<lparr>data := (data a)\<lparr>recv := recv (data a) @ [PullBlocks hs]\<rparr>\<rparr>)
           (Period v + 1)"
proof -
  from assms obtain vs where vs: "votes (data a) (Period v) = Some vs" by auto
  obtain h ok where c: "countVoteNoLock (data a) (hashOrder ord) (Period v) (Type v) = (h, ok)"
    by (cases "countVoteNoLock (data a) (hashOrder ord) (Period v) (Type v)")
  define C0 where "C0 \<longleftrightarrow> ok \<and> h \<noteq> skipBlockHash e"
  have eq: "checkOutput e ord a v =
     (if \<not> hasOutput a \<and> Type v = VoteCom then
        if C0 then
          (Returned None,
           a\<lparr>hasOutput := True,
             data := (data a)\<lparr>recv := recv (data a) @ [ConfirmBlock h (vs VoteCom)]\<rparr>\<rparr>)
        else checkFastForward e ord a v
      else if hasOutput a then (Returned None, a)
      else checkFastForward e ord a v)"
    unfolding checkOutput_def c vs C0_def by simp
  consider (o1) "\<not> hasOutput a" "Type v = VoteCom"
      "checkOutput e ord a v =
         (Returned None,
          a\<lparr>hasOutput := True,
            data := (data a)\<lparr>recv := recv (data a) @ [ConfirmBlock h (vs VoteCom)]\<rparr>\<rparr>)"
    | (o2) "hasOutput a" "checkOutput e ord a v = (Returned None, a)"
    | (o3) "\<not> hasOutput a" "checkOutput e ord a v = checkFastForward e ord a v"
  proof (cases "hasOutput a")
    case True
    then show ?thesis using eq by (intro o2) simp_all
  next
    case H: False
    show ?thesis
    proof (cases "Type v = VoteCom \<and> C0")
      case True
      then show ?thesis using eq H by (intro o1) simp_all
    next
      case False
      then show ?thesis using eq H by (intro o3) auto
    qed
  qed
  then show ?thesis
  proof cases
    case o1 then show ?thesis by (rule confirm)
  next
    case o2 then show ?thesis by (rule ignored)
  next
    case o3
    from assms show ?thesis
    proof (cases rule: checkFastForward_cases [where e = e and ord = ord])
      case unchanged
      with o3 show ?thesis by (auto intro: that(3))
    next
      case (lock1 h)
      with o3 show ?thesis by (auto intro: that(4))
    next
      case (lock2 h)
      with o3 show ?thesis by (auto intro: that(5))
    next
      case (pull hs)
      with o3 show ?thesis by (auto intro: that(6))
    qed
  qed
qed

lemma processVote_cases
  [consumes 1, case_names rejected dropped buffered confirm ignored unchanged lock1 lock2 pull]:
  assumes "processVote e ord now a v = (r, a')"
  obtains (rejected) err where "r = Returned (Some err)" "a' = a"
      "sanityCheck e a v = Some err \<or>
       sanityCheck e a v = None \<and> Position v = agreementID a \<and> checkForkVote a v = Some err"
  | (dropped) "r = Returned None" "a' = a" "sanityCheck e a v = None"
      "Position v \<noteq> agreementID a"
  | (buffered) "r = Returned None" "a' = a\<lparr>pendingVote := pendingVote a @ [(v, now)]\<rparr>"
      "sanityCheck e a v = None" "Position v \<noteq> agreementID a"
  | (confirm) h m where "sanityCheck e a v = None" "Position v = agreementID a"
      "checkForkVote a v = None" "\<not> hasOutput a" "Type v = VoteCom"
      "r = Returned None"
      "a' = (withVote a v)\<lparr>hasOutput := True,
              data := (data (withVote a v))\<lparr>recv := recv (data a) @ [ConfirmBlock h m]\<rparr>\<rparr>"
  | (ignored) "sanityCheck e a v = None" "Position v = agreementID a"
      "checkForkVote a v = None" "hasOutput a" "r = Returned None" "a' = withVote a v"
  | (unchanged) "sanityCheck e a v = None" "Position v = agreementID a"
      "checkForkVote a v = None" "\<not> hasOutput a" "r = Returned None" "a' = withVote a v"
  | (lock1) h where "sanityCheck e a v = None" "Position v = agreementID a"
      "checkForkVote a v = None" "\<not> hasOutput a" "Type v = VotePreCom"
      "Period v \<le> period (data a)" "lockRound (data a) < Period v"
      "(r, a') = sendFastForward
         ((withVote a v)\<lparr>data := (data (withVote a v))\<lparr>lockValue := h, lockRound := Period v\<rparr>\<rparr>)
         (period (data a) + 1)"
  | (lock2) h where "sanityCheck e a v = None" "Position v = agreementID a"
      "checkForkVote a v = None" "\<not> hasOutput a" "Type v = VotePreCom"
      "period (data a) < Period v"
      "(r, a') = sendFastForward
         ((withVote a v)\<lparr>data := (data (withVote a v))\<lparr>lockValue := h, lockRound := Period v\<rparr>\<rparr>)
         (Period v)"
  | (pull) hs where "sanityCheck e a v = None" "Position v = agreementID a"
      "checkForkVote a v = None" "\<not> hasOutput a" "Type v = VoteCom"
      "(r, a') = sendFastForward
         ((withVote a v)\<lparr>data := (data (withVote a v))\<lparr>recv := recv (data a) @ [PullBlocks hs]\<rparr>\<rparr>)
         (Period v + 1)"
proof (cases "sanityCheck e a v")
  case (Some err)
  with assms show ?thesis by (intro rejected [of err]) (simp_all add: processVote_def)
next
  case S: None
  show ?thesis
  proof (cases "Position v = agreementID a")
    case False
    show ?thesis
    proof (cases "\<not> isStop (agreementID a) \<and> Newer e (agreementID a) (Position v)")
      case True
      with assms S False show ?thesis by (intro dropped) (simp_all add: processVote_def)
    next
      case F: False
      have "processVote e ord now a v = (Returned None, a\<lparr>pendingVote := pendingVote a @ [(v, now)]\<rparr>)"
        using S False F by (auto simp: processVote_def)
      with assms S False show ?thesis by (intro buffered) simp_all
    qed
  next
    case P: True
    show ?thesis
    proof (cases "checkForkVote a v")
      case (Some err)
      with assms S P show ?thesis by (intro rejected [of err]) (simp_all add: processVote_def)
    next
      case F: None
      have pv: "checkOutput e ord (withVote a v) v = (r, a')"
        using assms processVote_withVote [OF S P F] by simp
      have nn: "votes (data (withVote a v)) (Period v) \<noteq> None" by (rule votes_withVote)
      from nn show ?thesis
      proof (cases rule: checkOutput_cases [where e = e and ord = ord])
        case (confirm h m)
        from confirm(1,2) have 1: "\<not> hasOutput a" "Type v = VoteCom" by simp_all
        from confirm(3) pv have 2: "r = Returned None"
          "a' = (withVote a v)\<lparr>hasOutput := True,
              data := (data (withVote a v))\<lparr>recv := recv (data a) @ [ConfirmBlock h m]\<rparr>\<rparr>"
          by simp_all
        from S P F 1 2 show ?thesis by (rule that(4))
      next
        case ignored
        from ignored(1) have 1: "hasOutput a" by simp
        from ignored(2) pv have 2: "r = Returned None" "a' = withVote a v" by simp_all
        from S P F 1 2 show ?thesis by (rule that(5))
      next
        case unchanged
        from unchanged(1) have 1: "\<not> hasOutput a" by simp
        from unchanged(2) pv have 2: "r = Returned None" "a' = withVote a v" by simp_all
        from S P F 1 2 show ?thesis by (rule that(6))
      next
        case (lock1 h)
        from lock1(1-4) have 1: "\<not> hasOutput a" "Type v = VotePreCom"
          "Period v \<le> period (data a)" "lockRound (data a) < Period v" by simp_all
        from lock1(5) pv have 2: "(r, a') = sendFastForward
         ((withVote a v)\<lparr>data := (data (withVote a v))\<lparr>lockValue := h, lockRound := Period v\<rparr>\<rparr>)
         (period (data a) + 1)" by simp
        from S P F 1 2 show ?thesis by (rule that(7))
      next
        case (lock2 h)
        from lock2(1-3) have 1: "\<not> hasOutput a" "Type v = VotePreCom"
          "period (data a) < Period v" by simp_all
        from lock2(4) pv have 2: "(r, a') = sendFastForward
         ((withVote a v)\<lparr>data := (data (withVote a v))\<lparr>lockValue := h, lockRound := Period v\<rparr>\<rparr>)
         (Period v)" by simp
        from S P F 1 2 show ?thesis by (rule that(8))
      next
        case (pull hs)
        from pull(1,2) have 1: "\<not> hasOutput a" "Type v = VoteCom" by simp_all
        from pull(3) pv have 2: "(r, a') = sendFastForward
         ((withVote a v)\<lparr>data := (data (withVote a v))\<lparr>recv := recv (data a) @ [PullBlocks hs]\<rparr>\<rparr>)
         (Period v + 1)" by simp
        from S P F 1 2 show ?thesis by (rule that(9))
      qed
    qed
  qed
qed

lemma sendFastForward_cases [consumes 1, case_names sent blocked]:
  assumes "(r, a') = sendFastForward a p"
  obtains (sent) "fastForward a = None" "r = Returned None" "a' = a\<lparr>fastForward := Some p\<rparr>"
  | (blocked) q where "fastForward a = Some q" "r = BlockedOnSend p" "a' = a"
  using assms by (cases "fastForward a") (auto simp: sendFastForward_def)

lemma processVote_lockInv:
  assumes "processVote e ord now a v = (Returned x, a')" "lockInv a"
  shows "lockInv a'"
  using assms(1)
proof (cases rule: processVote_cases)
  case (lock1 h)
  from lock1(8) show ?thesis
    by (cases rule: sendFastForward_cases) (use lock1 in \<open>simp_all add: lockInv_def\<close>)
next
  case (lock2 h)
  from lock2(7) show ?thesis
    by (cases rule: sendFastForward_cases) (simp_all add: lockInv_def)
next
  case (pull hs)
  from pull(6) show ?thesis
    by (cases rule: sendFastForward_cases) (use assms(2) in \<open>simp_all add: lockInv_def\<close>)
qed (use assms(2) in \<open>simp_all add: lockInv_def\<close>)

subsection \<open>The lock round and the period\<close>

lemma replayBlocks_invariant:
  assumes "\<And>a b. P a \<Longrightarrow> P (snd (processBlock e now a b))"
  shows "P a \<Longrightarrow> P (replayBlocks e now a bs)"
  by (induction bs arbitrary: a) (simp_all add: assms)

lemma replayVotes_invariant:
  assumes "\<And>a ord v x a'. P a \<Longrightarrow> processVote e ord now a v = (Returned x, a') \<Longrightarrow> P a'"
  shows "P a \<Longrightarrow> replayVotes e ords now a vs = (Returned x, a') \<Longrightarrow> P a'"
proof (induction vs arbitrary: a ords)
  case Nil
  then show ?case by simp
next
  case (Cons v vs)
  obtain r a1 where pv: "processVote e (ords 0) now a v = (r, a1)"
    by (cases "processVote e (ords 0) now a v")
  show ?case
  proof (cases r)
    case (Returned y)
    with pv Cons.prems(1) have "P a1" by (auto intro: assms)
    moreover from Cons.prems(2) pv Returned
    have "replayVotes e (\<lambda>i. ords (Suc i)) now a1 vs = (Returned x, a')" by simp
    ultimately show ?thesis by (rule Cons.IH)
  next
    case (BlockedOnSend w)
    with pv Cons.prems(2) show ?thesis by simp
  next
    case Panicked
    with pv Cons.prems(2) show ?thesis by simp
  qed
qed

lemma resetAgreement_pending:
  "(resetAgreement e a ns p)\<lparr>pendingBlock := pendingBlock a, pendingVote := pendingVote a\<rparr>
     = resetAgreement e a ns p"
  by (simp add: resetAgreement_def)

lemma restart_invariant:
  assumes reset: "\<And>pb pv. P ((resetAgreement e a ns p)\<lparr>pendingBlock := pb, pendingVote := pv\<rparr>)"
    and pb: "\<And>a b. P a \<Longrightarrow> P (snd (processBlock e now a b))"
    and pv: "\<And>a ord v x a'. P a \<Longrightarrow> processVote e ord now a v = (Returned x, a') \<Longrightarrow> P a'"
    and r: "restart e ords now a ns p = (Returned x, a')"
  shows "P a'"
proof (cases "isStop p")
  case True
  with r have "a' = resetAgreement e a ns p" by (simp add: restart_def Let_def)
  then show ?thesis using reset [where pb = "pendingBlock a" and pv = "pendingVote a"]
    by (simp add: resetAgreement_pending)
next
  case False
  define a1 where "a1 = resetAgreement e a ns p"
  obtain npb rb where sb: "sweepPendingBlock e p (now - 10 * 1000000000) (pendingBlock a1) ([], []) = (npb, rb)"
    by (cases "sweepPendingBlock e p (now - 10 * 1000000000) (pendingBlock a1) ([], [])")
  obtain npv rv where sv: "sweepPendingVote e p (now - 10 * 1000000000) (pendingVote a1) ([], []) = (npv, rv)"
    by (cases "sweepPendingVote e p (now - 10 * 1000000000) (pendingVote a1) ([], [])")
  let ?a3 = "a1\<lparr>pendingBlock := npb, pendingVote := npv\<rparr>"
  have r': "replayVotes e ords now (replayBlocks e now ?a3 rb) rv = (Returned x, a')"
    using r False sb sv by (simp add: restart_def Let_def a1_def)
  have "P ?a3" unfolding a1_def by (rule reset)
  then have "P (replayBlocks e now ?a3 rb)" by (rule replayBlocks_invariant [rotated]) (rule pb)
  then show ?thesis using r' by (rule replayVotes_invariant [rotated]) (rule pv)
qed

lemma run_invariant:
  assumes "\<And>a c a'. P a \<Longrightarrow> step e a c = Some a' \<Longrightarrow> P a'"
  shows "P a \<Longrightarrow> run e a cs = Some a' \<Longrightarrow> P a'"
proof (induction cs arbitrary: a)
  case Nil
  then show ?case by simp
next
  case (Cons c cs)
  from Cons.prems(2) obtain a1 where s: "step e a c = Some a1" and r: "run e a1 cs = Some a'"
    by (auto split: option.splits)
  from Cons.prems(1) s have "P a1" by (rule assms)
  then show ?case using r by (rule Cons.IH)
qed

lemma step_ProcessVote:
  "step e a (ProcessVote ord now v) = Some a' \<longleftrightarrow>
     (\<exists>x. processVote e ord now a v = (Returned x, a'))"
  by (auto split: prod.splits outcome.splits)

lemma step_Restart:
  "step e a (Restart ords now ns p) = Some a' \<longleftrightarrow>
     (\<exists>x. restart e ords now a ns p = (Returned x, a'))"
  by (auto split: prod.splits outcome.splits)

lemma step_Done:
  "step e a Done = Some a' \<longleftrightarrow> (\<exists>b. done' a = Some (b, a'))"
  by (auto split: option.splits)

lemma processBlock_lockInv: "lockInv a \<Longrightarrow> lockInv (snd (processBlock e now a b))"
  by (simp add: processBlock_def addCandidateBlock_def lockInv_def split: option.splits prod.splits)

lemma done'_lockInv:
  assumes "done' a = Some (b, a')" "lockInv a"
  shows "lockInv a'"
proof (cases "hasOutput a")
  case True
  with assms show ?thesis by (simp add: done'_def)
next
  case H: False
  show ?thesis
  proof (cases "fastForward a")
    case None
    with assms H show ?thesis by (simp add: done'_def)
  next
    case (Some q)
    show ?thesis
    proof (cases "q \<le> period (data a)")
      case True
      with assms H Some have "a' = a\<lparr>fastForward := None\<rparr>" by (simp add: done'_def)
      with assms(2) Some True show ?thesis by (auto simp: lockInv_def)
    next
      case False
      with assms(1) H Some obtain d where d: "setPeriod (data a) q = Some d"
        and a': "a' = a\<lparr>fastForward := None, data := d, state := PreCommitState\<rparr>"
        by (auto simp: done'_def split: option.splits)
      from setPeriod_fields [OF d] have "period d = q" "lockRound d = lockRound (data a)" by simp_all
      with assms(2) Some False a' show ?thesis by (auto simp: lockInv_def)
    qed
  qed
qed

lemma restart_lockInv:
  assumes "restart e ords now a ns p = (Returned x, a')"
  shows "lockInv a'"
proof (rule restart_invariant [where P = lockInv, OF _ _ _ assms])
  show "lockInv ((resetAgreement e a ns p)\<lparr>pendingBlock := pb, pendingVote := pv\<rparr>)" for pb pv
    by (simp add: lockInv_def resetAgreement_def)
  show "lockInv a \<Longrightarrow> lockInv (snd (processBlock e now a b))" for a b
    by (rule processBlock_lockInv)
  show "lockInv a \<Longrightarrow> processVote e ord now a v = (Returned x, a') \<Longrightarrow> lockInv a'" for a ord v x a'
    by (rule processVote_lockInv)
qed

lemma step_lockInv: "lockInv a \<Longrightarrow> step e a c = Some a' \<Longrightarrow> lockInv a'"
proof (cases c)
  case (ProcessVote ord now v)
  assume "lockInv a" "step e a c = Some a'"
  then show ?thesis unfolding ProcessVote step_ProcessVote by (auto intro: processVote_lockInv)
next
  case (ProcessBlock now b)
  assume "lockInv a" "step e a c = Some a'"
  then show ?thesis unfolding ProcessBlock using processBlock_lockInv [of a e now b] by auto
next
  case Done
  assume "lockInv a" "step e a c = Some a'"
  then show ?thesis unfolding Done step_Done by (auto intro: done'_lockInv)
next
  case (Restart ords now ns p)
  assume "lockInv a" "step e a c = Some a'"
  then show ?thesis unfolding Restart step_Restart by (auto intro: restart_lockInv)
qed

text \<open>
  C3, as the code has it. In every state reached from a \<^verbatim>\<open>restart\<close> that returns by a
  sequence of calls of \<^verbatim>\<open>processVote\<close>, \<^verbatim>\<open>processBlock\<close>, \<^verbatim>\<open>done\<close> and \<^verbatim>\<open>restart\<close> that
  return, the lock round is at most the current period, or it is the value that waits in
  the channel \<^verbatim>\<open>fastForward\<close>: condition 2 sets the lock round to the period of the vote,
  which is greater than the current period, and sends that period, and the lock round
  stays ahead of the period until \<^verbatim>\<open>done\<close> takes the value and makes it the period.
\<close>

theorem lock_round_invariant:
  "restart e ords now a0 ns p = (Returned (), a1) \<and> run e a1 cs = Some a \<longrightarrow>
   lockRound (data a) \<le> period (data a) \<or> fastForward a = Some (lockRound (data a))"
proof
  assume "restart e ords now a0 ns p = (Returned (), a1) \<and> run e a1 cs = Some a"
  then have 1: "lockInv a1" and 2: "run e a1 cs = Some a"
    by (auto intro: restart_lockInv)
  from 1 2 have "lockInv a" by (rule run_invariant [where P = lockInv, rotated]) (rule step_lockInv)
  then show "lockRound (data a) \<le> period (data a) \<or> fastForward a = Some (lockRound (data a))"
    by (simp add: lockInv_def)
qed

theorem lock_round_invariant_witness:
  "fst (restart testEnv (\<lambda>_. testOrder) 0 (newAgreement testEnv 0 ()) {|1, 2, 3, 4|} testPosition)
     = Returned () \<and>
   \<not> Option.is_none (run testEnv testStart (quorumInPeriod3 @ [Done])) \<and>
   lockRound (data (the (run testEnv testStart (quorumInPeriod3 @ [Done])))) = 3 \<and>
   period (data (the (run testEnv testStart (quorumInPeriod3 @ [Done])))) = 3 \<and>
   (lockRound (data (the (run testEnv testStart (quorumInPeriod3 @ [Done]))))
      \<le> period (data (the (run testEnv testStart (quorumInPeriod3 @ [Done])))) \<or>
    fastForward (the (run testEnv testStart (quorumInPeriod3 @ [Done])))
      = Some (lockRound (data (the (run testEnv testStart (quorumInPeriod3 @ [Done]))))))"
proof -
  let ?r = "restart testEnv (\<lambda>_. testOrder) 0 (newAgreement testEnv 0 ()) {|1, 2, 3, 4|} testPosition"
  let ?cs = "quorumInPeriod3 @ [Done]"
  have 1: "fst ?r = Returned ()" by code_simp
  then have 2: "?r = (Returned (), testStart)"
    unfolding testStart_def by (metis prod.collapse)
  have 3: "\<not> Option.is_none (run testEnv testStart ?cs)" by code_simp
  then have 4: "run testEnv testStart ?cs = Some (the (run testEnv testStart ?cs))"
    by (simp add: Option.is_none_def)
  have 5: "lockRound (data (the (run testEnv testStart ?cs))) = 3"
    "period (data (the (run testEnv testStart ?cs))) = 3" by code_simp+
  from lock_round_invariant [of testEnv "\<lambda>_. testOrder" 0 "newAgreement testEnv 0 ()"
      "{|1, 2, 3, 4|}" testPosition testStart ?cs "the (run testEnv testStart ?cs)"] 2 4
  have "lockRound (data (the (run testEnv testStart ?cs)))
      \<le> period (data (the (run testEnv testStart ?cs))) \<or>
    fastForward (the (run testEnv testStart ?cs))
      = Some (lockRound (data (the (run testEnv testStart ?cs))))"
    by blast
  with 1 3 5 show ?thesis by blast
qed

theorem lock_round_invariant_counterexample:
  "fst (restart testEnv (\<lambda>_. testOrder) 0 (newAgreement testEnv 0 ()) {|1, 2, 3, 4|} testPosition)
     = Returned () \<and>
   \<not> Option.is_none (run testEnv testStart quorumInPeriod3) \<and>
   lockRound (data quorumInPeriod3State) = 3 \<and>
   period (data quorumInPeriod3State) = 1 \<and>
   fastForward quorumInPeriod3State = Some 3 \<and>
   \<not> lockRound (data quorumInPeriod3State) \<le> period (data quorumInPeriod3State)"
  by code_simp

subsection \<open>Finalization, at most once\<close>

lemma votersFor_card:
  "votes d p = Some vs \<Longrightarrow>
   card (votersFor d p t h) = length (filter (\<lambda>nv. BlockHash (snd nv) = h) (DAList.impl_of (vs t)))"
  using card_map_of_filter [of "DAList.impl_of (vs t)" "\<lambda>v. BlockHash v = h"]
  by (simp add: votersFor_def DAList.lookup.rep_eq)

lemma countVoteNoLock_unique:
  assumes vs: "votes d p = Some vs" and q: "onlyQuorum d p t H"
  shows "countVoteNoLock d pref p t = (H, True)"
proof -
  let ?xs = "DAList.impl_of (vs t)"
  let ?cand = "countCandidates ?xs []"
  let ?n = "\<lambda>h. int (length (filter (\<lambda>nv. BlockHash (snd nv) = h) ?xs))"
  from q have qH: "requiredVote d \<le> ?n H"
    and uq: "\<And>h. requiredVote d \<le> ?n h \<Longrightarrow> h = H"
    by (simp_all add: onlyQuorum_def votersFor_card [OF vs])
  have pos: "0 < requiredVote d"
  proof (rule ccontr)
    assume "\<not> 0 < requiredVote d"
    then have "requiredVote d \<le> ?n 0" "requiredVote d \<le> ?n 1" by simp_all
    then have "(0 :: hash) = H" "(1 :: hash) = H" by (auto dest: uq)
    then show False by simp
  qed
  with qH have ne: "filter (\<lambda>nv. BlockHash (snd nv) = H) ?xs \<noteq> []" by auto
  have mo: "map_of ?cand H = Some (?n H)"
    using map_of_countCandidates [of "[]" ?xs H] ne by simp
  then have "(H, ?n H) \<in> set (goRange pref ?cand)"
    by (simp add: set_goRange map_of_SomeD)
  then have "\<exists>x\<in>set (goRange pref ?cand). requiredVote d \<le> snd x"
    using qH by (intro bexI [of _ "(H, ?n H)"]) simp_all
  then have "find (\<lambda>c. snd c \<ge> requiredVote d) (goRange pref ?cand) \<noteq> None"
    by (simp add: find_None_iff')
  then obtain c where f: "find (\<lambda>c. snd c \<ge> requiredVote d) (goRange pref ?cand) = Some c"
    by auto
  then have r: "countVoteNoLock d pref p t = (fst c, True)"
    by (simp add: countVoteNoLock_def vs Let_def)
  from countVoteNoLock_sound [OF r] vs
  have "requiredVote d \<le> int (card (votersFor d p t (fst c)))"
    by (simp add: votersFor_def)
  with q have "fst c = H" by (simp add: onlyQuorum_def)
  with r show ?thesis by simp
qed

lemma checkOutput_confirm:
  assumes "\<not> hasOutput a" "Type v = VoteCom" "votes (data a) (Period v) = Some vs"
    "countVoteNoLock (data a) (hashOrder ord) (Period v) VoteCom = (H, True)"
    "H \<noteq> skipBlockHash e"
  shows "checkOutput e ord a v =
     (Returned None,
      a\<lparr>hasOutput := True,
        data := (data a)\<lparr>recv := recv (data a) @ [ConfirmBlock H (vs VoteCom)]\<rparr>\<rparr>)"
  using assms by (simp add: checkOutput_def)

lemma finalizing_vote:
  assumes acc: "sanityCheck e a v = None" "Position v = agreementID a" "checkForkVote a v = None"
    and rest: "\<not> hasOutput a" "Type v = VoteCom"
      "onlyQuorum (data (withVote a v)) (Period v) VoteCom H" "H \<noteq> skipBlockHash e"
  shows "processVote e ord now a v =
     (Returned None,
      (withVote a v)\<lparr>hasOutput := True,
        data := (data (withVote a v))\<lparr>recv := recv (data a) @
          [ConfirmBlock H (commitVotes (data (withVote a v)) (Period v))]\<rparr>\<rparr>)"
proof -
  let ?b = "withVote a v"
  from votes_withVote [of a v] obtain vs where vs: "votes (data ?b) (Period v) = Some vs" by auto
  have c: "countVoteNoLock (data ?b) (hashOrder ord) (Period v) VoteCom = (H, True)"
    by (rule countVoteNoLock_unique [OF vs rest(3)])
  have "checkOutput e ord ?b v =
     (Returned None,
      ?b\<lparr>hasOutput := True,
        data := (data ?b)\<lparr>recv := recv (data ?b) @ [ConfirmBlock H (vs VoteCom)]\<rparr>\<rparr>)"
    by (rule checkOutput_confirm) (use rest vs c in simp_all)
  then show ?thesis
    by (simp add: processVote_withVote [OF acc] commitVotes_def vs)
qed

lemma confirms_append [simp]:
  "confirms (a\<lparr>data := (data a)\<lparr>recv := recv (data a) @ [ev]\<rparr>\<rparr>)
     = (if isConfirm ev then confirms a @ [ev] else confirms a)"
  by (simp add: confirms_def)

lemma processVote_after_output:
  assumes "hasOutput a"
  shows "\<exists>x. processVote e ord now a v = (Returned x, snd (processVote e ord now a v)) \<and>
           (sanityCheck e a v = None \<and> checkForkVote a v = None \<longrightarrow> x = None)"
    and "hasOutput (snd (processVote e ord now a v))"
    and "recv (data (snd (processVote e ord now a v))) = recv (data a)"
proof -
  obtain r a' where pv: "processVote e ord now a v = (r, a')"
    by (cases "processVote e ord now a v")
  from pv have "(\<exists>x. r = Returned x \<and> (sanityCheck e a v = None \<and> checkForkVote a v = None \<longrightarrow> x = None))
      \<and> hasOutput a' \<and> recv (data a') = recv (data a)"
    by (cases rule: processVote_cases) (use assms in auto)
  with pv show "\<exists>x. processVote e ord now a v = (Returned x, snd (processVote e ord now a v)) \<and>
           (sanityCheck e a v = None \<and> checkForkVote a v = None \<longrightarrow> x = None)"
    and "hasOutput (snd (processVote e ord now a v))"
    and "recv (data (snd (processVote e ord now a v))) = recv (data a)"
    by auto
qed

lemma processVote_confirmedOnce:
  assumes "processVote e ord now a v = (r, a')" "confirmedOnce before a"
  shows "confirmedOnce before a'"
  using assms(1)
proof (cases rule: processVote_cases)
  case (confirm h m)
  with assms(2) show ?thesis by (simp add: confirmedOnce_def confirms_def)
next
  case (lock1 h)
  from lock1(8) show ?thesis
    by (cases rule: sendFastForward_cases)
       (use assms(2) in \<open>simp_all add: confirmedOnce_def confirms_def\<close>)
next
  case (lock2 h)
  from lock2(7) show ?thesis
    by (cases rule: sendFastForward_cases)
       (use assms(2) in \<open>simp_all add: confirmedOnce_def confirms_def\<close>)
next
  case (pull hs)
  from pull(6) show ?thesis
    by (cases rule: sendFastForward_cases)
       (use assms(2) in \<open>simp_all add: confirmedOnce_def confirms_def\<close>)
qed (use assms(2) in \<open>simp_all add: confirmedOnce_def confirms_def\<close>)

lemma processBlock_fields:
  "hasOutput (snd (processBlock e now a b)) = hasOutput a"
  "recv (data (snd (processBlock e now a b))) = recv (data a)"
  "votes (data (snd (processBlock e now a b))) = votes (data a)"
  "fastForward (snd (processBlock e now a b)) = fastForward a"
  "notarySet (snd (processBlock e now a b)) = notarySet a"
  "aID (snd (processBlock e now a b)) = aID a"
  "pendingVote (snd (processBlock e now a b)) = pendingVote a"
  "state (snd (processBlock e now a b)) = state a"
  "period (data (snd (processBlock e now a b))) = period (data a)"
  "lockRound (data (snd (processBlock e now a b))) = lockRound (data a)"
  "lockValue (data (snd (processBlock e now a b))) = lockValue (data a)"
  "requiredVote (data (snd (processBlock e now a b))) = requiredVote (data a)"
  by (simp_all add: processBlock_def addCandidateBlock_def split: option.splits prod.splits)

lemma processBlock_confirmedOnce:
  "confirmedOnce before a \<Longrightarrow> confirmedOnce before (snd (processBlock e now a b))"
  by (simp add: confirmedOnce_def confirms_def processBlock_fields)

lemma done'_confirmedOnce:
  assumes "done' a = Some (b, a')" "confirmedOnce before a"
  shows "confirmedOnce before a'"
proof -
  from assms(1) have "hasOutput a' = hasOutput a \<and> recv (data a') = recv (data a)"
    by (auto simp: done'_def split: if_splits option.splits dest: setPeriod_fields)
  with assms(2) show ?thesis by (simp add: confirmedOnce_def confirms_def)
qed

lemma restart_confirmedOnce:
  assumes "restart e ords now a ns p = (Returned x, a')"
  shows "confirmedOnce (confirms a) a'"
proof (rule restart_invariant [where P = "confirmedOnce (confirms a)", OF _ _ _ assms])
  show "confirmedOnce (confirms a) ((resetAgreement e a ns p)\<lparr>pendingBlock := pb, pendingVote := pv\<rparr>)"
    for pb pv
    by (simp add: confirmedOnce_def confirms_def resetAgreement_def)
  show "confirmedOnce (confirms a) b \<Longrightarrow> confirmedOnce (confirms a) (snd (processBlock e now b bl))"
    for b bl
    by (rule processBlock_confirmedOnce)
  show "confirmedOnce (confirms a) b \<Longrightarrow> processVote e ord now b v = (Returned y, b') \<Longrightarrow>
        confirmedOnce (confirms a) b'" for b ord v y b'
    by (rule processVote_confirmedOnce)
qed

lemma step_confirmedOnce:
  "\<not> isRestart c \<Longrightarrow> confirmedOnce before a \<Longrightarrow> step e a c = Some a' \<Longrightarrow> confirmedOnce before a'"
proof (cases c)
  case (ProcessVote ord now v)
  assume "confirmedOnce before a" "step e a c = Some a'"
  then show ?thesis unfolding ProcessVote step_ProcessVote
    by (auto intro: processVote_confirmedOnce)
next
  case (ProcessBlock now b)
  assume "confirmedOnce before a" "step e a c = Some a'"
  then show ?thesis unfolding ProcessBlock using processBlock_confirmedOnce [of before a e now b]
    by auto
next
  case Done
  assume "confirmedOnce before a" "step e a c = Some a'"
  then show ?thesis unfolding Done step_Done by (auto intro: done'_confirmedOnce)
next
  case (Restart ords now ns p)
  assume "\<not> isRestart c"
  then show ?thesis by (simp add: Restart)
qed

lemma run_confirmedOnce:
  "\<not> list_ex isRestart cs \<Longrightarrow> confirmedOnce before a \<Longrightarrow> run e a cs = Some a' \<Longrightarrow>
   confirmedOnce before a'"
proof (induction cs arbitrary: a)
  case Nil
  then show ?case by simp
next
  case (Cons c cs)
  from Cons.prems(3) obtain a1 where s: "step e a c = Some a1" and r: "run e a1 cs = Some a'"
    by (auto split: option.splits)
  from Cons.prems(1) have nc: "\<not> isRestart c" and ncs: "\<not> list_ex isRestart cs" by simp_all
  from nc Cons.prems(2) s have "confirmedOnce before a1" by (rule step_confirmedOnce)
  with ncs show ?case using r by (rule Cons.IH)
qed

lemma length_filter_count_list:
  "length (filter (\<lambda>x. f x = h) xs) = count_list (map f xs) h"
  by (induction xs) auto

lemma votersFor_count: "card (votersFor d p t h) = count_list (hashesOf d p t) h"
proof (cases "votes d p")
  case None
  then show ?thesis by (simp add: votersFor_def hashesOf_def)
next
  case (Some vs)
  then show ?thesis
    by (simp add: votersFor_card [OF Some] hashesOf_def length_filter_count_list)
qed

lemma processVote_after_output_result:
  assumes "hasOutput c"
  shows "fst (processVote e ord now c w) =
     Returned (case sanityCheck e c w of
                 Some err \<Rightarrow> Some err
               | None \<Rightarrow> if Position w = agreementID c then checkForkVote c w else None)"
proof (cases "sanityCheck e c w")
  case (Some err)
  then show ?thesis by (simp add: processVote_def)
next
  case S: None
  show ?thesis
  proof (cases "Position w = agreementID c")
    case False
    with S show ?thesis by (simp add: processVote_def)
  next
    case P: True
    show ?thesis
    proof (cases "checkForkVote c w")
      case (Some err)
      with S P show ?thesis by (simp add: processVote_def)
    next
      case F: None
      have "checkOutput e ord (withVote c w) w = (Returned None, withVote c w)"
        using assms by (simp add: checkOutput_def)
      with S P F show ?thesis by (simp add: processVote_withVote)
    qed
  qed
qed

text \<open>
  C1, as the code has it. (1) From a \<^verbatim>\<open>restart\<close> that returns, over every sequence of
  calls of \<^verbatim>\<open>processVote\<close>, \<^verbatim>\<open>processBlock\<close> and \<^verbatim>\<open>done\<close> that return, with no other
  \<^verbatim>\<open>restart\<close>: the calls of \<^verbatim>\<open>ConfirmBlock\<close> are those made before the \<^verbatim>\<open>restart\<close> and at
  most one more, and there is one more exactly when the round has its output.
  (2) In a round without output, a Commit vote that \<^verbatim>\<open>processVote\<close> accepts and with
  which the Commit votes of its period have a quorum for the hash \<open>H\<close>, which is not the
  skip hash, and for no other hash: the call returns \<^verbatim>\<open>nil\<close>, the round has its output,
  and the one new call to the receiver is \<^verbatim>\<open>ConfirmBlock\<close> with \<open>H\<close> and the Commit votes
  of the period. (3) In a round with its output, every call of \<^verbatim>\<open>processVote\<close> with a
  vote of type Init, PreCommit or Commit returns, makes no call to the receiver and
  leaves the output flag set. What it returns is: the error of the sanity check when the
  vote fails it; else \<^verbatim>\<open>nil\<close> when the vote is for another position; else the
  \<^verbatim>\<open>ErrForkVote\<close> of the fork-vote check when the vote fails it; else \<^verbatim>\<open>nil\<close>.
\<close>

theorem at_most_once_finalization:
  "(restart e ords now a0 ns p = (Returned (), a1) \<and> \<not> list_ex isRestart cs \<and>
      run e a1 cs = Some a \<longrightarrow>
      (\<exists>new. confirms a = confirms a0 @ new \<and> length new \<le> 1 \<and>
             (hasOutput a \<longleftrightarrow> length new = 1))) \<and>
   (sanityCheck e b v = None \<and> Position v = agreementID b \<and> checkForkVote b v = None \<and>
      \<not> hasOutput b \<and> Type v = VoteCom \<and>
      onlyQuorum (data (withVote b v)) (Period v) VoteCom H \<and> H \<noteq> skipBlockHash e \<longrightarrow>
      fst (processVote e ord now' b v) = Returned None \<and>
      hasOutput (snd (processVote e ord now' b v)) \<and>
      recv (data (snd (processVote e ord now' b v)))
        = recv (data b) @ [ConfirmBlock H (commitVotes (data (withVote b v)) (Period v))]) \<and>
   (hasOutput c \<longrightarrow>
      hasOutput (snd (processVote e ord' now'' c w)) \<and>
      recv (data (snd (processVote e ord' now'' c w))) = recv (data c) \<and>
      fst (processVote e ord' now'' c w) =
        Returned (case sanityCheck e c w of
                    Some err \<Rightarrow> Some err
                  | None \<Rightarrow> if Position w = agreementID c then checkForkVote c w else None))"
proof (intro conjI impI)
  assume "restart e ords now a0 ns p = (Returned (), a1) \<and> \<not> list_ex isRestart cs \<and>
      run e a1 cs = Some a"
  then have "confirmedOnce (confirms a0) a"
    by (auto intro: run_confirmedOnce restart_confirmedOnce)
  then show "\<exists>new. confirms a = confirms a0 @ new \<and> length new \<le> 1 \<and>
             (hasOutput a \<longleftrightarrow> length new = 1)"
    by (auto simp: confirmedOnce_def split: if_splits)
next
  assume h: "sanityCheck e b v = None \<and> Position v = agreementID b \<and> checkForkVote b v = None \<and>
      \<not> hasOutput b \<and> Type v = VoteCom \<and>
      onlyQuorum (data (withVote b v)) (Period v) VoteCom H \<and> H \<noteq> skipBlockHash e"
  then have pv: "processVote e ord now' b v =
     (Returned None,
      (withVote b v)\<lparr>hasOutput := True,
        data := (data (withVote b v))\<lparr>recv := recv (data b) @
          [ConfirmBlock H (commitVotes (data (withVote b v)) (Period v))]\<rparr>\<rparr>)"
    by (intro finalizing_vote) simp_all
  show "fst (processVote e ord now' b v) = Returned None"
    "hasOutput (snd (processVote e ord now' b v))"
    "recv (data (snd (processVote e ord now' b v)))
        = recv (data b) @ [ConfirmBlock H (commitVotes (data (withVote b v)) (Period v))]"
    unfolding pv by simp_all
next
  assume c: "hasOutput c"
  show "hasOutput (snd (processVote e ord' now'' c w))"
    "recv (data (snd (processVote e ord' now'' c w))) = recv (data c)"
    by (rule processVote_after_output [OF c])+
  show "fst (processVote e ord' now'' c w) =
        Returned (case sanityCheck e c w of
                    Some err \<Rightarrow> Some err
                  | None \<Rightarrow> if Position w = agreementID c then checkForkVote c w else None)"
    by (rule processVote_after_output_result [OF c])
qed

theorem at_most_once_finalization_counterexample:
  "hasOutput confirmedState \<and>
   sanityCheck testEnv confirmedState (testVote 1 1 VoteCom 9) = None \<and>
   Position (testVote 1 1 VoteCom 9) = agreementID confirmedState \<and>
   fst (processVote testEnv testOrder 0 confirmedState (testVote 1 1 VoteCom 9))
     = Returned (Some (ErrForkVote 1 (testVote 1 1 VoteCom 7) (testVote 1 1 VoteCom 9))) \<and>
   requiredVote (data twoNotariesState) = 1 \<and>
   \<not> hasOutput twoNotariesState \<and>
   sanityCheck testEnv twoNotariesState (testVote 2 1 VoteCom 7) = None \<and>
   Position (testVote 2 1 VoteCom 7) = agreementID twoNotariesState \<and>
   checkForkVote twoNotariesState (testVote 2 1 VoteCom 7) = None \<and>
   7 \<noteq> skipBlockHash testEnv \<and>
   count_list (hashesOf (data (withVote twoNotariesState (testVote 2 1 VoteCom 7))) 1 VoteCom) 7 = 1 \<and>
   fst (processVote testEnv testOrder 0 twoNotariesState (testVote 2 1 VoteCom 7)) = Returned None \<and>
   \<not> hasOutput (snd (processVote testEnv testOrder 0 twoNotariesState (testVote 2 1 VoteCom 7))) \<and>
   confirms (snd (processVote testEnv testOrder 0 twoNotariesState (testVote 2 1 VoteCom 7))) = []"
  by code_simp

theorem at_most_once_finalization_witness:
  "(let cs = [ProcessVote testOrder 0 (testVote 1 1 VoteCom 7),
              ProcessVote testOrder 0 (testVote 2 1 VoteCom 7),
              ProcessVote testOrder 0 (testVote 3 1 VoteCom 7),
              ProcessVote testOrder 0 (testVote 4 1 VoteCom 9),
              ProcessVote testOrder 0 (testVote 1 1 VoteCom 7),
              ProcessBlock 0 (testBlock 1 7), Done];
        a = the (run testEnv testStart cs);
        b = testVotes testStart [testVote 1 1 VoteCom 7, testVote 2 1 VoteCom 9, testVote 3 1 VoteCom 7];
        v = testVote 4 1 VoteCom 7;
        w = testVote 4 2 VoteCom 9;
        w2 = testVote 1 1 VoteCom 9;
        w3 = testVote 5 1 VoteCom 7 in
      fst (restart testEnv (\<lambda>_. testOrder) 0 (newAgreement testEnv 0 ()) {|1, 2, 3, 4|} testPosition)
        = Returned () \<and>
      \<not> list_ex isRestart cs \<and> \<not> Option.is_none (run testEnv testStart cs) \<and>
      hasOutput a \<and> length (confirms a) = 1 \<and>
      (\<exists>new. confirms a = confirms (newAgreement testEnv 0 ()) @ new \<and> length new \<le> 1 \<and>
             (hasOutput a \<longleftrightarrow> length new = 1)) \<and>
      sanityCheck testEnv b v = None \<and> Position v = agreementID b \<and> checkForkVote b v = None \<and>
      \<not> hasOutput b \<and> Type v = VoteCom \<and>
      onlyQuorum (data (withVote b v)) (Period v) VoteCom 7 \<and> 7 \<noteq> skipBlockHash testEnv \<and>
      fst (processVote testEnv testOrder 0 b v) = Returned None \<and>
      hasOutput (snd (processVote testEnv testOrder 0 b v)) \<and>
      recv (data (snd (processVote testEnv testOrder 0 b v)))
        = recv (data b) @ [ConfirmBlock 7 (commitVotes (data (withVote b v)) (Period v))] \<and>
      hasOutput confirmedState \<and>
      sanityCheck testEnv confirmedState w = None \<and> checkForkVote confirmedState w = None \<and>
      hasOutput (snd (processVote testEnv testOrder 0 confirmedState w)) \<and>
      recv (data (snd (processVote testEnv testOrder 0 confirmedState w)))
        = recv (data confirmedState) \<and>
      fst (processVote testEnv testOrder 0 confirmedState w) = Returned None \<and>
      fst (processVote testEnv testOrder 0 confirmedState w2)
        = Returned (Some (ErrForkVote 1 (testVote 1 1 VoteCom 7) w2)) \<and>
      recv (data (snd (processVote testEnv testOrder 0 confirmedState w2)))
        = recv (data confirmedState) \<and>
      fst (processVote testEnv testOrder 0 confirmedState w3) = Returned (Some ErrNotInNotarySet) \<and>
      recv (data (snd (processVote testEnv testOrder 0 confirmedState w3)))
        = recv (data confirmedState))"
proof -
  define cs where "cs = [ProcessVote testOrder 0 (testVote 1 1 VoteCom 7),
              ProcessVote testOrder 0 (testVote 2 1 VoteCom 7),
              ProcessVote testOrder 0 (testVote 3 1 VoteCom 7),
              ProcessVote testOrder 0 (testVote 4 1 VoteCom 9),
              ProcessVote testOrder 0 (testVote 1 1 VoteCom 7),
              ProcessBlock 0 (testBlock 1 7), Done]"
  define a where "a = the (run testEnv testStart cs)"
  define b where "b = testVotes testStart
     [testVote 1 1 VoteCom 7, testVote 2 1 VoteCom 9, testVote 3 1 VoteCom 7]"
  define v where "v = testVote 4 1 VoteCom 7"
  define w where "w = testVote 4 2 VoteCom 9"
  define w2 where "w2 = testVote 1 1 VoteCom 9"
  define w3 where "w3 = testVote 5 1 VoteCom 7"
  let ?r = "restart testEnv (\<lambda>_. testOrder) 0 (newAgreement testEnv 0 ()) {|1, 2, 3, 4|} testPosition"
  have r1: "fst ?r = Returned ()" by code_simp
  then have r2: "?r = (Returned (), testStart)"
    unfolding testStart_def by (metis prod.collapse)
  have c1: "\<not> list_ex isRestart cs" unfolding cs_def by code_simp
  have c2: "\<not> Option.is_none (run testEnv testStart cs)" unfolding cs_def by code_simp
  then have c3: "run testEnv testStart cs = Some a"
    by (simp add: a_def Option.is_none_def)
  have c4: "hasOutput a" "length (confirms a) = 1" unfolding a_def cs_def by code_simp+
  have hb: "sanityCheck testEnv b v = None" "Position v = agreementID b" "checkForkVote b v = None"
    "\<not> hasOutput b" "Type v = VoteCom" "7 \<noteq> skipBlockHash testEnv"
    unfolding b_def v_def by code_simp+
  have hs: "hashesOf (data (withVote b v)) (Period v) VoteCom = [7, 9, 7, 7]"
    and rq: "requiredVote (data b) = 3"
    unfolding b_def v_def by code_simp+
  have oq: "onlyQuorum (data (withVote b v)) (Period v) VoteCom 7"
    by (simp add: onlyQuorum_def votersFor_count hs rq)
  have hc: "hasOutput confirmedState" "sanityCheck testEnv confirmedState w = None"
    "checkForkVote confirmedState w = None" "Position w = agreementID confirmedState"
    unfolding w_def by code_simp+
  have hc2: "sanityCheck testEnv confirmedState w2 = None"
    "Position w2 = agreementID confirmedState"
    "checkForkVote confirmedState w2 = Some (ErrForkVote 1 (testVote 1 1 VoteCom 7) w2)"
    unfolding w2_def by code_simp+
  have hc3: "sanityCheck testEnv confirmedState w3 = Some ErrNotInNotarySet"
    unfolding w3_def by code_simp
  note inst = at_most_once_finalization [of testEnv "\<lambda>_. testOrder" 0 "newAgreement testEnv 0 ()"
      "{|1, 2, 3, 4|}" testPosition testStart cs a b v 7 testOrder 0 confirmedState testOrder 0 w]
  from inst r2 c1 c3 have p1: "\<exists>new. confirms a = confirms (newAgreement testEnv 0 ()) @ new \<and>
      length new \<le> 1 \<and> (hasOutput a \<longleftrightarrow> length new = 1)"
    by blast
  from inst hb oq have p2: "fst (processVote testEnv testOrder 0 b v) = Returned None"
      "hasOutput (snd (processVote testEnv testOrder 0 b v))"
      "recv (data (snd (processVote testEnv testOrder 0 b v)))
        = recv (data b) @ [ConfirmBlock 7 (commitVotes (data (withVote b v)) (Period v))]"
    by blast+
  from inst hc have p3: "hasOutput (snd (processVote testEnv testOrder 0 confirmedState w))"
      "recv (data (snd (processVote testEnv testOrder 0 confirmedState w)))
        = recv (data confirmedState)"
      "fst (processVote testEnv testOrder 0 confirmedState w) = Returned None"
    by simp_all
  from at_most_once_finalization [where e = testEnv and c = confirmedState and w = w2
      and ord' = testOrder and now'' = 0] hc(1) hc2
  have p4: "fst (processVote testEnv testOrder 0 confirmedState w2)
        = Returned (Some (ErrForkVote 1 (testVote 1 1 VoteCom 7) w2))"
      "recv (data (snd (processVote testEnv testOrder 0 confirmedState w2)))
        = recv (data confirmedState)"
    by simp_all
  from at_most_once_finalization [where e = testEnv and c = confirmedState and w = w3
      and ord' = testOrder and now'' = 0] hc(1) hc3
  have p5: "fst (processVote testEnv testOrder 0 confirmedState w3) = Returned (Some ErrNotInNotarySet)"
      "recv (data (snd (processVote testEnv testOrder 0 confirmedState w3)))
        = recv (data confirmedState)"
    by simp_all
  from r1 c1 c2 c4 p1 hb oq p2 hc(1,2,3) p3 p4 p5 show ?thesis
    unfolding Let_def cs_def [symmetric] a_def [symmetric] b_def [symmetric] v_def [symmetric]
      w_def [symmetric] w2_def [symmetric] w3_def [symmetric]
    by blast
qed

subsection \<open>Stale votes, future votes and the sweep of restart\<close>

lemma sweepPendingVote_filter:
  "sweepPendingVote e p ex xs (np, rp) =
     (np @ filter (\<lambda>pd. \<not> Newer e p (Position (fst pd)) \<and> Position (fst pd) \<noteq> p \<and> snd pd > ex) xs,
      rp @ map fst (filter (\<lambda>pd. \<not> Newer e p (Position (fst pd)) \<and> Position (fst pd) = p) xs))"
  by (induction xs arbitrary: np rp) auto

lemma sweepPendingBlock_filter:
  "sweepPendingBlock e p ex xs (np, rp) =
     (np @ filter (\<lambda>pd. \<not> Newer e p (BlockPosition (fst pd)) \<and> BlockPosition (fst pd) \<noteq> p \<and> snd pd > ex) xs,
      rp @ map fst (filter (\<lambda>pd. \<not> Newer e p (BlockPosition (fst pd)) \<and> BlockPosition (fst pd) = p) xs))"
  by (induction xs arbitrary: np rp) auto

lemma fate_Kept:
  "fate e p now pos t = Kept \<longleftrightarrow> \<not> Newer e p pos \<and> pos \<noteq> p \<and> t > now - 10 * 1000000000"
  by (simp add: fate_def)

lemma fate_Replayed:
  "fate e p now pos t = Replayed \<longleftrightarrow> \<not> Newer e p pos \<and> pos = p"
  by (simp add: fate_def)

lemma processBlock_pending:
  "BlockPosition b = aID a \<Longrightarrow> pendingBlock (snd (processBlock e now a b)) = pendingBlock a"
  by (simp add: processBlock_def addCandidateBlock_def agreementID_def split: option.splits prod.splits)

lemma replayBlocks_pending:
  "\<forall>b\<in>set bs. BlockPosition b = aID a \<Longrightarrow>
   pendingBlock (replayBlocks e now a bs) = pendingBlock a \<and>
   pendingVote (replayBlocks e now a bs) = pendingVote a \<and>
   aID (replayBlocks e now a bs) = aID a"
proof (induction bs arbitrary: a)
  case Nil
  then show ?case by simp
next
  case (Cons b bs)
  let ?a1 = "snd (processBlock e now a b)"
  have 1: "pendingBlock ?a1 = pendingBlock a" "pendingVote ?a1 = pendingVote a" "aID ?a1 = aID a"
    using Cons.prems by (simp_all add: processBlock_pending processBlock_fields)
  with Cons.prems have "\<forall>b\<in>set bs. BlockPosition b = aID ?a1" by simp
  from Cons.IH [OF this] 1 show ?case by simp
qed

lemma processVote_pending:
  assumes "Position v = aID a"
  shows "pendingVote (snd (processVote e ord now a v)) = pendingVote a"
proof -
  obtain r a' where pv: "processVote e ord now a v = (r, a')"
    by (cases "processVote e ord now a v")
  from pv have "pendingVote a' = pendingVote a"
  proof (cases rule: processVote_cases)
    case (lock1 h)
    from lock1(8) show ?thesis by (cases rule: sendFastForward_cases) simp_all
  next
    case (lock2 h)
    from lock2(7) show ?thesis by (cases rule: sendFastForward_cases) simp_all
  next
    case (pull hs)
    from pull(6) show ?thesis by (cases rule: sendFastForward_cases) simp_all
  qed (use assms in \<open>simp_all add: agreementID_def\<close>)
  with pv show ?thesis by simp
qed

lemma replayVotes_pending:
  "\<forall>v\<in>set vs. Position v = aID a \<Longrightarrow>
   pendingBlock (snd (replayVotes e ords now a vs)) = pendingBlock a \<and>
   pendingVote (snd (replayVotes e ords now a vs)) = pendingVote a"
proof (induction vs arbitrary: a ords)
  case Nil
  then show ?case by simp
next
  case (Cons v vs)
  obtain r a1 where pv: "processVote e (ords 0) now a v = (r, a1)"
    by (cases "processVote e (ords 0) now a v")
  have f: "voteFrame a a1" using processVote_frame [of a e "ords 0" now v] pv by simp
  have 1: "pendingVote a1 = pendingVote a"
    using processVote_pending [of v a e "ords 0" now] Cons.prems pv by simp
  from f have 2: "pendingBlock a1 = pendingBlock a" "aID a1 = aID a" by (simp_all add: voteFrame_def)
  with Cons.prems have "\<forall>v\<in>set vs. Position v = aID a1" by simp
  from Cons.IH [OF this, of "\<lambda>i. ords (Suc i)"] 1 2 pv show ?case
    by (cases r) simp_all
qed

lemma replayBlocks_fold:
  "replayBlocks e now a bs = fold (\<lambda>b x. snd (processBlock e now x b)) bs a"
  by (induction bs arbitrary: a) simp_all

lemma replay_stuck:
  "r \<noteq> Returned () \<Longrightarrow>
   foldl (\<lambda>(r, x) (i, v).
            if r = Returned ()
            then (map_outcome (\<lambda>_. ()) (fst (processVote e (ords i) now x v)),
                  snd (processVote e (ords i) now x v))
            else (r, x)) (r, x) ivs = (r, x)"
  by (induction ivs) auto

lemma replayVotes_foldl:
  "replayVotes e (\<lambda>i. ords (k + i)) now a vs =
     foldl (\<lambda>(r, x) (i, v).
              if r = Returned ()
              then (map_outcome (\<lambda>_. ()) (fst (processVote e (ords i) now x v)),
                    snd (processVote e (ords i) now x v))
              else (r, x))
       (Returned (), a) (enumerate k vs)"
proof (induction vs arbitrary: a k)
  case Nil
  then show ?case by simp
next
  case (Cons v vs)
  obtain r a1 where pv: "processVote e (ords k) now a v = (r, a1)"
    by (cases "processVote e (ords k) now a v")
  show ?case
  proof (cases r)
    case (Returned y)
    have "replayVotes e (\<lambda>i. ords (k + i)) now a (v # vs)
        = replayVotes e (\<lambda>i. ords (Suc k + i)) now a1 vs"
      using pv Returned by simp
    also note Cons.IH [of "Suc k" a1]
    finally show ?thesis using pv Returned by simp
  next
    case (BlockedOnSend w)
    then show ?thesis using pv by (simp add: replay_stuck)
  next
    case Panicked
    then show ?thesis using pv by (simp add: replay_stuck)
  qed
qed

text \<open>
  C7. A vote that passes the sanity check and whose position is not the current one:
  \<^verbatim>\<open>processVote\<close> returns \<^verbatim>\<open>nil\<close>; when the instance is not stopped and the current
  position is newer than that of the vote the state is the one before the call, and
  otherwise the vote, with the time of the call, is appended to the pending votes and
  nothing else changes. A \<^verbatim>\<open>restart\<close> to a position \<open>p\<close> that is not the stop sentinel
  starts from the new round state, in which the pending blocks and the pending votes are
  the entries that the spec calls kept, in their order. On that state it calls
  \<^verbatim>\<open>processBlock\<close> with each pending block that the spec calls replayed, the same value,
  in the order of the buffer, each call on the state the one before left. Then it calls
  \<^verbatim>\<open>processVote\<close> with each pending vote that the spec calls replayed, the same value, in
  the order of the buffer, each call on the state the one before left; what these calls
  return is dropped, and the \<^verbatim>\<open>restart\<close> goes no further than a call that does not
  return. The replay adds nothing to the two buffers: after the \<^verbatim>\<open>restart\<close> they hold
  exactly the kept entries, and every other entry is gone.
\<close>

theorem stale_drop_future_buffer:
  "(sanityCheck e a v = None \<and> Position v \<noteq> agreementID a \<longrightarrow>
      processVote e ord now a v =
        (Returned None,
         if \<not> isStop (agreementID a) \<and> Newer e (agreementID a) (Position v) then a
         else a\<lparr>pendingVote := pendingVote a @ [(v, now)]\<rparr>)) \<and>
   (\<not> isStop p \<longrightarrow>
      restart e ords now a ns p =
        foldl (\<lambda>(r, x) (i, v).
                 if r = Returned ()
                 then (map_outcome (\<lambda>_. ()) (fst (processVote e (ords i) now x v)),
                       snd (processVote e (ords i) now x v))
                 else (r, x))
          (Returned (),
           fold (\<lambda>b x. snd (processBlock e now x b))
             (map fst
                (filter (\<lambda>pd. fate e p now (BlockPosition (fst pd)) (snd pd) = Replayed)
                   (pendingBlock a)))
             ((resetAgreement e a ns p)
                \<lparr>pendingBlock :=
                   filter (\<lambda>pd. fate e p now (BlockPosition (fst pd)) (snd pd) = Kept) (pendingBlock a),
                 pendingVote :=
                   filter (\<lambda>pd. fate e p now (Position (fst pd)) (snd pd) = Kept) (pendingVote a)\<rparr>))
          (enumerate 0
             (map fst
                (filter (\<lambda>pd. fate e p now (Position (fst pd)) (snd pd) = Replayed)
                   (pendingVote a)))) \<and>
      pendingBlock (snd (restart e ords now a ns p)) =
        filter (\<lambda>pd. fate e p now (BlockPosition (fst pd)) (snd pd) = Kept) (pendingBlock a) \<and>
      pendingVote (snd (restart e ords now a ns p)) =
        filter (\<lambda>pd. fate e p now (Position (fst pd)) (snd pd) = Kept) (pendingVote a))"
proof (intro conjI impI)
  assume "sanityCheck e a v = None \<and> Position v \<noteq> agreementID a"
  then show "processVote e ord now a v =
        (Returned None,
         if \<not> isStop (agreementID a) \<and> Newer e (agreementID a) (Position v) then a
         else a\<lparr>pendingVote := pendingVote a @ [(v, now)]\<rparr>)"
    by (simp add: processVote_def)
next
  assume ns: "\<not> isStop p"
  let ?kb = "filter (\<lambda>pd. fate e p now (BlockPosition (fst pd)) (snd pd) = Kept) (pendingBlock a)"
  let ?kv = "filter (\<lambda>pd. fate e p now (Position (fst pd)) (snd pd) = Kept) (pendingVote a)"
  let ?rb = "map fst (filter (\<lambda>pd. fate e p now (BlockPosition (fst pd)) (snd pd) = Replayed)
                   (pendingBlock a))"
  let ?rv = "map fst (filter (\<lambda>pd. fate e p now (Position (fst pd)) (snd pd) = Replayed)
                   (pendingVote a))"
  let ?a3 = "(resetAgreement e a ns p)\<lparr>pendingBlock := ?kb, pendingVote := ?kv\<rparr>"
  have pa: "pendingBlock (resetAgreement e a ns p) = pendingBlock a"
    "pendingVote (resetAgreement e a ns p) = pendingVote a"
    by (simp_all add: resetAgreement_def)
  have eq: "restart e ords now a ns p = replayVotes e ords now (replayBlocks e now ?a3 ?rb) ?rv"
    using ns
    by (simp add: restart_def Let_def sweepPendingVote_filter sweepPendingBlock_filter pa
        fate_Kept fate_Replayed)
  show "restart e ords now a ns p =
        foldl (\<lambda>(r, x) (i, v).
                 if r = Returned ()
                 then (map_outcome (\<lambda>_. ()) (fst (processVote e (ords i) now x v)),
                       snd (processVote e (ords i) now x v))
                 else (r, x))
          (Returned (), fold (\<lambda>b x. snd (processBlock e now x b)) ?rb ?a3)
          (enumerate 0 ?rv)"
    unfolding eq replayBlocks_fold using replayVotes_foldl [of e ords 0 now _ ?rv] by simp
  have id: "aID ?a3 = p" by (simp add: resetAgreement_def)
  have rb: "\<forall>b\<in>set ?rb. BlockPosition b = aID ?a3"
    unfolding id by (auto simp: fate_Replayed)
  note B = replayBlocks_pending [OF rb, of e now]
  have rv: "\<forall>v\<in>set ?rv. Position v = aID (replayBlocks e now ?a3 ?rb)"
    using B id by (auto simp: fate_Replayed)
  note V = replayVotes_pending [OF rv, of e ords now]
  from V B show "pendingBlock (snd (restart e ords now a ns p)) = ?kb"
    unfolding eq by simp
  from V B show "pendingVote (snd (restart e ords now a ns p)) = ?kv"
    unfolding eq by simp
qed

theorem stale_drop_future_buffer_witness:
  "(let v0 = testVoteAt 0 1 1 VoteInit 7; v2 = testVoteAt 2 1 1 VoteInit 7;
        v3 = testVoteAt 3 1 1 VoteInit 7; v4 = testVoteAt 4 1 1 VoteInit 7;
        v5 = testVoteAt 4 2 1 VoteInit 7;
        b2 = testBlockAt 2 1 8; b3 = testBlockAt 3 1 8; b4 = testBlockAt 4 1 8;
        b5 = testBlockAt 4 2 8;
        a = the (run testEnv testStart
                  [ProcessVote testOrder 0 v2, ProcessVote testOrder 0 v3,
                   ProcessVote testOrder 1000000000 v4, ProcessVote testOrder 15000000000 v5,
                   ProcessBlock 0 b2, ProcessBlock 0 b3,
                   ProcessBlock 1000000000 b4, ProcessBlock 15000000000 b5]);
        p = \<lparr>chainID = 0, height = 3\<rparr>;
        r = restart testEnv (\<lambda>_. testOrder) 20000000000 a {|1, 2, 3, 4|} p in
      sanityCheck testEnv testStart v0 = None \<and> Position v0 \<noteq> agreementID testStart \<and>
      processVote testEnv testOrder 0 testStart v0 = (Returned None, testStart) \<and>
      sanityCheck testEnv testStart v2 = None \<and> Position v2 \<noteq> agreementID testStart \<and>
      processVote testEnv testOrder 0 testStart v2
        = (Returned None, testStart\<lparr>pendingVote := pendingVote testStart @ [(v2, 0)]\<rparr>) \<and>
      pendingVote a = [(v2, 0), (v3, 0), (v4, 1000000000), (v5, 15000000000)] \<and>
      pendingBlock a = [(b2, 0), (b3, 0), (b4, 1000000000), (b5, 15000000000)] \<and>
      \<not> isStop p \<and> fst r = Returned () \<and>
      snd r =
        snd (processVote testEnv testOrder 20000000000
               (snd (processBlock testEnv 20000000000
                       ((resetAgreement testEnv a {|1, 2, 3, 4|} p)
                          \<lparr>pendingBlock := [(b5, 15000000000)],
                           pendingVote := [(v5, 15000000000)]\<rparr>)
                       b3))
               v3) \<and>
      pendingVote (snd r) = [(v5, 15000000000)] \<and>
      pendingBlock (snd r) = [(b5, 15000000000)] \<and>
      blocks (data (snd r)) 1 = Some b3 \<and> candidateBlock (snd r) 8 = Some b3 \<and>
      blocks (data (snd r)) 2 = None \<and>
      recordedVote (data (snd r)) 1 VoteInit 1 = Some v3 \<and>
      recordedVote (data (snd r)) 1 VoteInit 2 = None)"
proof -
  define v0 where "v0 = testVoteAt 0 1 1 VoteInit 7"
  define v2 where "v2 = testVoteAt 2 1 1 VoteInit 7"
  define v3 where "v3 = testVoteAt 3 1 1 VoteInit 7"
  define v4 where "v4 = testVoteAt 4 1 1 VoteInit 7"
  define v5 where "v5 = testVoteAt 4 2 1 VoteInit 7"
  define b2 where "b2 = testBlockAt 2 1 8"
  define b3 where "b3 = testBlockAt 3 1 8"
  define b4 where "b4 = testBlockAt 4 1 8"
  define b5 where "b5 = testBlockAt 4 2 8"
  define a where "a = the (run testEnv testStart
                  [ProcessVote testOrder 0 v2, ProcessVote testOrder 0 v3,
                   ProcessVote testOrder 1000000000 v4, ProcessVote testOrder 15000000000 v5,
                   ProcessBlock 0 b2, ProcessBlock 0 b3,
                   ProcessBlock 1000000000 b4, ProcessBlock 15000000000 b5])"
  define p where "p = \<lparr>chainID = 0, height = 3\<rparr>"
  define r where "r = restart testEnv (\<lambda>_. testOrder) 20000000000 a {|1, 2, 3, 4|} p"
  note defs = v2_def v3_def v4_def v5_def b2_def b3_def b4_def b5_def
  have h0: "sanityCheck testEnv testStart v0 = None" "Position v0 \<noteq> agreementID testStart"
    "\<not> isStop (agreementID testStart) \<and> Newer testEnv (agreementID testStart) (Position v0)"
    unfolding v0_def by code_simp+
  have h2: "sanityCheck testEnv testStart v2 = None" "Position v2 \<noteq> agreementID testStart"
    "\<not> (\<not> isStop (agreementID testStart) \<and> Newer testEnv (agreementID testStart) (Position v2))"
    unfolding v2_def by code_simp+
  have pa: "pendingVote a = [(v2, 0), (v3, 0), (v4, 1000000000), (v5, 15000000000)]"
    "pendingBlock a = [(b2, 0), (b3, 0), (b4, 1000000000), (b5, 15000000000)]"
    unfolding a_def defs by code_simp+
  have hp: "\<not> isStop p" "fst r = Returned ()"
    "blocks (data (snd r)) 1 = Some b3" "candidateBlock (snd r) 8 = Some b3"
    "blocks (data (snd r)) 2 = None"
    "recordedVote (data (snd r)) 1 VoteInit 1 = Some v3"
    "recordedVote (data (snd r)) 1 VoteInit 2 = None"
    unfolding r_def p_def a_def defs by code_simp+
  have kv: "filter (\<lambda>pd. fate testEnv p 20000000000 (Position (fst pd)) (snd pd) = Kept)
              [(v2, 0), (v3, 0), (v4, 1000000000), (v5, 15000000000)] = [(v5, 15000000000)]"
    and rv: "filter (\<lambda>pd. fate testEnv p 20000000000 (Position (fst pd)) (snd pd) = Replayed)
              [(v2, 0), (v3, 0), (v4, 1000000000), (v5, 15000000000)] = [(v3, 0)]"
    and kb: "filter (\<lambda>pd. fate testEnv p 20000000000 (BlockPosition (fst pd)) (snd pd) = Kept)
              [(b2, 0), (b3, 0), (b4, 1000000000), (b5, 15000000000)] = [(b5, 15000000000)]"
    and rb: "filter (\<lambda>pd. fate testEnv p 20000000000 (BlockPosition (fst pd)) (snd pd) = Replayed)
              [(b2, 0), (b3, 0), (b4, 1000000000), (b5, 15000000000)] = [(b3, 0)]"
    unfolding p_def defs by code_simp+
  from stale_drop_future_buffer [of testEnv testStart v0 testOrder 0 p] h0
  have 1: "processVote testEnv testOrder 0 testStart v0 = (Returned None, testStart)"
    by simp
  from stale_drop_future_buffer [of testEnv testStart v2 testOrder 0 p] h2
  have 2: "processVote testEnv testOrder 0 testStart v2
        = (Returned None, testStart\<lparr>pendingVote := pendingVote testStart @ [(v2, 0)]\<rparr>)"
    by simp
  note inst = stale_drop_future_buffer [of testEnv a v0 testOrder 20000000000 p
      "\<lambda>_. testOrder" "{|1, 2, 3, 4|}", THEN conjunct2, rule_format, OF hp(1),
      unfolded pa kv rv kb rb, folded r_def]
  note 5 = inst [THEN conjunct1]
  note 3 = inst [THEN conjunct2, THEN conjunct1] inst [THEN conjunct2, THEN conjunct2]
  have 4: "snd r =
        snd (processVote testEnv testOrder 20000000000
               (snd (processBlock testEnv 20000000000
                       ((resetAgreement testEnv a {|1, 2, 3, 4|} p)
                          \<lparr>pendingBlock := [(b5, 15000000000)],
                           pendingVote := [(v5, 15000000000)]\<rparr>)
                       b3))
               v3)"
    unfolding 5 by simp
  from h0 h2 pa hp 1 2 3 4 show ?thesis
    unfolding Let_def v0_def [symmetric] v2_def [symmetric] v3_def [symmetric] v4_def [symmetric]
      v5_def [symmetric] b2_def [symmetric] b3_def [symmetric] b4_def [symmetric]
      b5_def [symmetric] a_def [symmetric] p_def [symmetric] r_def [symmetric]
    by blast
qed

subsection \<open>Resubmission of a recorded vote or block\<close>

lemma DAList_update_triv: "DAList.lookup m k = Some v \<Longrightarrow> DAList.update k v m = m"
  by (rule alist_ext) (simp add: DAList.update.rep_eq DAList.lookup.rep_eq update_triv)

lemma recordVote_recorded:
  assumes "recordedVote d (Period v) (Type v) (ProposerID v) = Some v"
  shows "recordVote d v = d"
proof -
  from assms obtain vs where vs: "votes d (Period v) = Some vs"
    and l: "DAList.lookup (vs (Type v)) (ProposerID v) = Some v"
    by (auto simp: recordedVote_def split: option.splits)
  have "vs(Type v := DAList.update (ProposerID v) v (vs (Type v))) = vs"
    by (simp add: DAList_update_triv [OF l])
  then have "(votes d)(Period v \<mapsto> vs(Type v := DAList.update (ProposerID v) v (vs (Type v)))) = votes d"
    using vs by (simp add: map_upd_triv)
  then show ?thesis by (simp add: recordVote_def vs Let_def)
qed

lemma recordedVote_recordVote:
  "recordedVote (recordVote d v) p t n =
     (if p = Period v \<and> t = Type v \<and> n = ProposerID v then Some v else recordedVote d p t n)"
  by (auto simp: recordedVote_def recordVote_def Let_def newVoteListMap_def DAList.lookup_update
      split: option.splits)

lemma sanityCheck_cong:
  "notarySet a' = notarySet a \<Longrightarrow> sanityCheck e a' v = sanityCheck e a v"
  by (simp add: sanityCheck_def)

lemma recordsValid_vote:
  assumes "recordsValid e a" "recordedVote (data a) p t n = Some w"
  shows "sanityCheck e a w = None \<and> Position w = aID a \<and>
         Period w = p \<and> Type w = t \<and> ProposerID w = n"
proof -
  from assms(1) have "\<forall>p t n v. recordedVote (data a) p t n = Some v \<longrightarrow>
        sanityCheck e a v = None \<and> Position v = aID a \<and>
        Period v = p \<and> Type v = t \<and> ProposerID v = n"
    unfolding recordsValid_def by (rule conjunct1)
  from this [rule_format, OF assms(2)] show ?thesis .
qed

lemma recordsValid_block:
  assumes "recordsValid e a" "blocks (data a) n = Some b"
  shows "BlockPosition b = aID a \<and> BlockProposerID b = n"
proof -
  from assms(1) have "\<forall>n b. blocks (data a) n = Some b \<longrightarrow>
      BlockPosition b = aID a \<and> BlockProposerID b = n"
    unfolding recordsValid_def by (rule conjunct2)
  from this [rule_format, OF assms(2)] show ?thesis .
qed

lemma recordsValidI:
  assumes "\<And>p t n v. recordedVote (data a) p t n = Some v \<Longrightarrow>
        sanityCheck e a v = None \<and> Position v = aID a \<and>
        Period v = p \<and> Type v = t \<and> ProposerID v = n"
    and "\<And>n b. blocks (data a) n = Some b \<Longrightarrow> BlockPosition b = aID a \<and> BlockProposerID b = n"
  shows "recordsValid e a"
proof -
  have 1: "\<forall>p t n v. recordedVote (data a) p t n = Some v \<longrightarrow>
        sanityCheck e a v = None \<and> Position v = aID a \<and>
        Period v = p \<and> Type v = t \<and> ProposerID v = n"
  proof (intro allI, rule impI)
    fix p t n v assume h: "recordedVote (data a) p t n = Some v"
    from assms(1) [OF h] show "sanityCheck e a v = None \<and> Position v = aID a \<and>
        Period v = p \<and> Type v = t \<and> ProposerID v = n" .
  qed
  have 2: "\<forall>n b. blocks (data a) n = Some b \<longrightarrow> BlockPosition b = aID a \<and> BlockProposerID b = n"
  proof (intro allI, rule impI)
    fix n b assume h: "blocks (data a) n = Some b"
    from assms(2) [OF h] show "BlockPosition b = aID a \<and> BlockProposerID b = n" .
  qed
  from 1 2 show ?thesis unfolding recordsValid_def by (rule conjI)
qed

lemma recordsValid_cong:
  assumes rv: "recordsValid e a" and ns: "notarySet a' = notarySet a" and id: "aID a' = aID a"
    and r: "recordedVote (data a') = recordedVote (data a)"
    and b: "blocks (data a') = blocks (data a)"
  shows "recordsValid e a'"
proof (rule recordsValidI)
  fix p t n v assume "recordedVote (data a') p t n = Some v"
  then have "recordedVote (data a) p t n = Some v" by (simp only: r)
  from recordsValid_vote [OF rv this] show "sanityCheck e a' v = None \<and> Position v = aID a' \<and>
        Period v = p \<and> Type v = t \<and> ProposerID v = n"
    by (simp only: id sanityCheck_cong [OF ns])
next
  fix n bl assume "blocks (data a') n = Some bl"
  then have "blocks (data a) n = Some bl" by (simp only: b)
  from recordsValid_block [OF rv this] show "BlockPosition bl = aID a' \<and> BlockProposerID bl = n"
    by (simp only: id)
qed

lemma recordsValid_withVote:
  assumes rv: "recordsValid e a" and sc: "sanityCheck e a v = None"
    and pos: "Position v = agreementID a"
  shows "recordsValid e (withVote a v)"
proof (rule recordsValidI)
  fix p t n w assume h: "recordedVote (data (withVote a v)) p t n = Some w"
  have s: "sanityCheck e (withVote a v) w = sanityCheck e a w"
    by (rule sanityCheck_cong) simp
  have i: "aID (withVote a v) = aID a" by simp
  from h have r: "(if p = Period v \<and> t = Type v \<and> n = ProposerID v then Some v
      else recordedVote (data a) p t n) = Some w"
    by (simp add: withVote_def recordedVote_recordVote)
  show "sanityCheck e (withVote a v) w = None \<and> Position w = aID (withVote a v) \<and>
        Period w = p \<and> Type w = t \<and> ProposerID w = n"
  proof (cases "p = Period v \<and> t = Type v \<and> n = ProposerID v")
    case True
    with r have "w = v" by simp
    with True sc pos show ?thesis unfolding s i by (simp add: agreementID_def)
  next
    case False
    with r have "recordedVote (data a) p t n = Some w" by simp
    from recordsValid_vote [OF rv this] show ?thesis unfolding s i .
  qed
next
  fix n bl assume "blocks (data (withVote a v)) n = Some bl"
  then have "blocks (data a) n = Some bl" by simp
  from recordsValid_block [OF rv this] show "BlockPosition bl = aID (withVote a v) \<and> BlockProposerID bl = n"
    by simp
qed

lemma recordedVote_cong: "votes d' = votes d \<Longrightarrow> recordedVote d' = recordedVote d"
  by (intro ext) (simp add: recordedVote_def)

lemma recordsValid_frame:
  assumes "recordsValid e b" "notarySet a' = notarySet b" "aID a' = aID b"
    "votes (data a') = votes (data b)" "blocks (data a') = blocks (data b)"
  shows "recordsValid e a'"
  using assms(1,2,3) recordedVote_cong [OF assms(4)] assms(5) by (rule recordsValid_cong)

lemma sendFastForward_data:
  assumes "(r, a') = sendFastForward b p"
  shows "notarySet a' = notarySet b" "aID a' = aID b" "data a' = data b"
  using assms by (cases "fastForward b"; simp add: sendFastForward_def)+

lemma processVote_recordsValid:
  assumes "processVote e ord now a v = (r, a')" "recordsValid e a"
  shows "recordsValid e a'"
  using assms(1)
proof (cases rule: processVote_cases)
  case (rejected err)
  with assms(2) show ?thesis by simp
next
  case dropped
  with assms(2) show ?thesis by simp
next
  case buffered
  from assms(2) show ?thesis unfolding buffered(2) by (rule recordsValid_frame) simp_all
next
  case (confirm h m)
  from recordsValid_withVote [OF assms(2) confirm(1,2)] show ?thesis
    unfolding confirm(7) by (rule recordsValid_frame) simp_all
next
  case ignored
  from recordsValid_withVote [OF assms(2) ignored(1,2)] show ?thesis unfolding ignored(6) .
next
  case unchanged
  from recordsValid_withVote [OF assms(2) unchanged(1,2)] show ?thesis unfolding unchanged(6) .
next
  case (lock1 h)
  note d = sendFastForward_data [OF lock1(8)]
  from recordsValid_withVote [OF assms(2) lock1(1,2)] show ?thesis
    by (rule recordsValid_frame) (simp_all add: d)
next
  case (lock2 h)
  note d = sendFastForward_data [OF lock2(7)]
  from recordsValid_withVote [OF assms(2) lock2(1,2)] show ?thesis
    by (rule recordsValid_frame) (simp_all add: d)
next
  case (pull hs)
  note d = sendFastForward_data [OF pull(6)]
  from recordsValid_withVote [OF assms(2) pull(1,2)] show ?thesis
    by (rule recordsValid_frame) (simp_all add: d)
qed

lemma processBlock_recordsValid:
  assumes rv: "recordsValid e a"
  shows "recordsValid e (snd (processBlock e now a b))"
proof -
  let ?a' = "snd (processBlock e now a b)"
  have b: "blocks (data ?a') = blocks (data a) \<or>
           (BlockPosition b = aID a \<and> blocks (data ?a') = (blocks (data a))(BlockProposerID b \<mapsto> b))"
    by (simp add: processBlock_def addCandidateBlock_def agreementID_def
        split: option.splits prod.splits)
  have f: "notarySet ?a' = notarySet a" "aID ?a' = aID a" "votes (data ?a') = votes (data a)"
    by (simp_all add: processBlock_fields)
  from f(3) have r: "recordedVote (data ?a') = recordedVote (data a)" by (rule recordedVote_cong)
  show ?thesis
  proof (rule recordsValidI)
    fix p t n v assume "recordedVote (data ?a') p t n = Some v"
    then have "recordedVote (data a) p t n = Some v" by (simp only: r)
    from recordsValid_vote [OF rv this]
    show "sanityCheck e ?a' v = None \<and> Position v = aID ?a' \<and>
        Period v = p \<and> Type v = t \<and> ProposerID v = n"
      by (simp only: f(2) sanityCheck_cong [OF f(1)])
  next
    fix n bl assume h: "blocks (data ?a') n = Some bl"
    from b show "BlockPosition bl = aID ?a' \<and> BlockProposerID bl = n"
    proof
      assume "blocks (data ?a') = blocks (data a)"
      with h have "blocks (data a) n = Some bl" by simp
      from recordsValid_block [OF rv this] show ?thesis by (simp only: f(2))
    next
      assume u: "BlockPosition b = aID a \<and> blocks (data ?a') = (blocks (data a))(BlockProposerID b \<mapsto> b)"
      show ?thesis
      proof (cases "n = BlockProposerID b")
        case True
        with h u have "bl = b" by simp
        with True u show ?thesis by (simp add: f(2))
      next
        case False
        with h u have "blocks (data a) n = Some bl" by simp
        from recordsValid_block [OF rv this] show ?thesis by (simp only: f(2))
      qed
    qed
  qed
qed

lemma setPeriodLoop_keeps:
  assumes "setPeriodLoop vs i p = Some vs'"
  shows "\<forall>q. vs' q = vs q \<or> (vs q = None \<and> vs' q = Some newVoteListMap)"
proof (rule setPeriodLoop.raw_induct
    [where P = "\<lambda>vs i p vs'. \<forall>q. vs' q = vs q \<or> (vs q = None \<and> vs' q = Some newVoteListMap)",
     OF _ assms])
  fix loop :: "(64 word \<rightharpoonup> voteListMap) \<Rightarrow> 64 word \<Rightarrow> 64 word \<Rightarrow> (64 word \<rightharpoonup> voteListMap) option"
  fix vs i p vs'
  assume IH: "\<And>vs i p y. loop vs i p = Some y \<Longrightarrow>
      \<forall>q. y q = vs q \<or> (vs q = None \<and> y q = Some newVoteListMap)"
    and eq: "(if i \<le> p then loop (setPeriodStep vs i) (i + 1) p else Some vs) = Some vs'"
  show "\<forall>q. vs' q = vs q \<or> (vs q = None \<and> vs' q = Some newVoteListMap)"
  proof (cases "i \<le> p")
    case True
    with eq have "loop (setPeriodStep vs i) (i + 1) p = Some vs'" by simp
    from IH [OF this]
    have "\<forall>q. vs' q = setPeriodStep vs i q \<or> (setPeriodStep vs i q = None \<and> vs' q = Some newVoteListMap)" .
    then show ?thesis
      by (auto simp: setPeriodStep_def split: option.splits if_splits)
  next
    case False
    with eq show ?thesis by simp
  qed
qed

lemma setPeriod_recordedVote:
  assumes "setPeriod d p = Some d'"
  shows "recordedVote d' = recordedVote d"
proof -
  from assms obtain vs' where l: "setPeriodLoop (votes d) (period d + 1) p = Some vs'"
    and d': "d' = d\<lparr>votes := vs', period := p\<rparr>"
    by (auto simp: setPeriod_def split: option.splits)
  from setPeriodLoop_keeps [OF l]
  have k: "vs' q = votes d q \<or> (votes d q = None \<and> vs' q = Some newVoteListMap)" for q by blast
  show ?thesis
  proof (intro ext)
    fix q t n
    from k [of q] show "recordedVote d' q t n = recordedVote d q t n"
      by (auto simp: recordedVote_def d' newVoteListMap_def)
  qed
qed

lemma done'_recordsValid:
  assumes "done' a = Some (b, a')" "recordsValid e a"
  shows "recordsValid e a'"
proof -
  from assms(1) have "notarySet a' = notarySet a \<and> aID a' = aID a \<and>
      recordedVote (data a') = recordedVote (data a) \<and> blocks (data a') = blocks (data a)"
    by (auto simp: done'_def split: if_splits option.splits
        dest: setPeriod_fields setPeriod_recordedVote)
  with assms(2) show ?thesis by (auto intro: recordsValid_cong)
qed

lemma restart_recordsValid:
  assumes "restart e ords now a ns p = (Returned x, a')"
  shows "recordsValid e a'"
proof (rule restart_invariant [where P = "recordsValid e", OF _ _ _ assms])
  show "recordsValid e ((resetAgreement e a ns p)\<lparr>pendingBlock := pb, pendingVote := pv\<rparr>)" for pb pv
    by (auto simp: recordsValid_def resetAgreement_def recordedVote_def newVoteListMap_def
        split: if_splits)
  show "recordsValid e b \<Longrightarrow> recordsValid e (snd (processBlock e now b bl))" for b bl
    by (rule processBlock_recordsValid)
  show "recordsValid e b \<Longrightarrow> processVote e ord now b v = (Returned y, b') \<Longrightarrow> recordsValid e b'"
    for b ord v y b'
    by (rule processVote_recordsValid)
qed

lemma step_recordsValid: "recordsValid e a \<Longrightarrow> step e a c = Some a' \<Longrightarrow> recordsValid e a'"
proof (cases c)
  case (ProcessVote ord now v)
  assume "recordsValid e a" "step e a c = Some a'"
  then show ?thesis unfolding ProcessVote step_ProcessVote
    by (auto intro: processVote_recordsValid)
next
  case (ProcessBlock now b)
  assume "recordsValid e a" "step e a c = Some a'"
  then show ?thesis unfolding ProcessBlock using processBlock_recordsValid [of e a now b] by auto
next
  case Done
  assume "recordsValid e a" "step e a c = Some a'"
  then show ?thesis unfolding Done step_Done by (auto intro: done'_recordsValid)
next
  case (Restart ords now ns p)
  assume "recordsValid e a" "step e a c = Some a'"
  then show ?thesis unfolding Restart step_Restart by (auto intro: restart_recordsValid)
qed

lemma run_recordsValid:
  "recordsValid e a \<Longrightarrow> run e a cs = Some a' \<Longrightarrow> recordsValid e a'"
  by (rule run_invariant [where P = "recordsValid e"]) (rule step_recordsValid)

lemma resubmitted_vote:
  assumes rv: "recordsValid e a" and rec: "recordedVote (data a) q t n = Some v"
  shows "sanityCheck e a v = None \<and> Position v = agreementID a \<and> checkForkVote a v = None"
    and "votes (data (snd (processVote e ord now a v))) = votes (data a) \<and>
      blocks (data (snd (processVote e ord now a v))) = blocks (data a) \<and>
      (fst (processVote e ord now a v) = Returned None \<or>
       (\<exists>w. fst (processVote e ord now a v) = BlockedOnSend w)) \<and>
      (fastForward a = None \<or> hasOutput a \<or> Type v = VoteInit \<longrightarrow>
         fst (processVote e ord now a v) = Returned None)"
proof -
  from recordsValid_vote [OF rv rec]
  have sc: "sanityCheck e a v = None" and pos: "Position v = agreementID a"
    and key: "Period v = q" "Type v = t" "ProposerID v = n"
    by (simp_all add: agreementID_def)
  from rec have own: "recordedVote (data a) (Period v) (Type v) (ProposerID v) = Some v"
    by (simp only: key)
  have wv: "withVote a v = a"
    using recordVote_recorded [OF own] by (simp add: withVote_def)
  from own have fk: "checkForkVote a v = None"
    by (auto simp: checkForkVote_def recordedVote_def split: option.splits)
  from sc pos fk
  show "sanityCheck e a v = None \<and> Position v = agreementID a \<and> checkForkVote a v = None"
    by simp
  obtain r a' where pv: "processVote e ord now a v = (r, a')"
    by (cases "processVote e ord now a v")
  have "votes (data a') = votes (data a) \<and> blocks (data a') = blocks (data a) \<and>
      (r = Returned None \<or> (\<exists>w. r = BlockedOnSend w)) \<and>
      (fastForward a = None \<or> hasOutput a \<or> Type v = VoteInit \<longrightarrow> r = Returned None)"
    using pv
  proof (cases rule: processVote_cases)
    case (rejected err)
    with sc pos fk show ?thesis by simp
  next
    case dropped
    with pos show ?thesis by simp
  next
    case buffered
    with pos show ?thesis by simp
  next
    case (confirm h m)
    from confirm(6,7) show ?thesis unfolding wv by simp
  next
    case ignored
    from ignored(5,6) show ?thesis unfolding wv by simp
  next
    case unchanged
    from unchanged(5,6) show ?thesis unfolding wv by simp
  next
    case (lock1 h)
    from lock1(8) show ?thesis unfolding wv
      by (cases rule: sendFastForward_cases) (use lock1(4,5) in simp_all)
  next
    case (lock2 h)
    from lock2(7) show ?thesis unfolding wv
      by (cases rule: sendFastForward_cases) (use lock2(4,5) in simp_all)
  next
    case (pull hs)
    from pull(6) show ?thesis unfolding wv
      by (cases rule: sendFastForward_cases) (use pull(4,5) in simp_all)
  qed
  then show "votes (data (snd (processVote e ord now a v))) = votes (data a) \<and>
      blocks (data (snd (processVote e ord now a v))) = blocks (data a) \<and>
      (fst (processVote e ord now a v) = Returned None \<or>
       (\<exists>w. fst (processVote e ord now a v) = BlockedOnSend w)) \<and>
      (fastForward a = None \<or> hasOutput a \<or> Type v = VoteInit \<longrightarrow>
         fst (processVote e ord now a v) = Returned None)"
    unfolding pv by simp
qed

lemma resubmitted_block:
  assumes rv: "recordsValid e a" and rec: "blocks (data a) m = Some b"
  shows "processBlock e now a b = (None, a)"
proof -
  from recordsValid_block [OF rv rec]
  have "BlockPosition b = agreementID a" "BlockProposerID b = m"
    by (simp_all add: agreementID_def)
  with rec show ?thesis by (simp add: processBlock_def)
qed

text \<open>
  C9, as the code has it. In a state reached from a \<^verbatim>\<open>restart\<close> that returns by calls of
  \<^verbatim>\<open>processVote\<close>, \<^verbatim>\<open>processBlock\<close>, \<^verbatim>\<open>done\<close> and \<^verbatim>\<open>restart\<close> that return, a recorded
  vote passes the sanity check, is for the current position and passes the fork-vote
  check, so \<^verbatim>\<open>processVote\<close> with that value returns no error; the call leaves the votes
  and the blocks exactly as they were, and either it returns \<^verbatim>\<open>nil\<close> or it waits on a
  send to \<^verbatim>\<open>fastForward\<close>. It returns \<^verbatim>\<open>nil\<close> when the channel is empty, when the round
  has its output and when the vote is an Init vote. A recorded block is for the current
  position, and \<^verbatim>\<open>processBlock\<close> with that value returns \<^verbatim>\<open>nil\<close> and changes nothing.
\<close>

theorem resubmission_idempotence:
  "restart e ords now0 a0 ns p = (Returned (), a1) \<and> run e a1 cs = Some a \<longrightarrow>
     (recordedVote (data a) q t n = Some v \<longrightarrow>
        sanityCheck e a v = None \<and> Position v = agreementID a \<and> checkForkVote a v = None \<and>
        votes (data (snd (processVote e ord now a v))) = votes (data a) \<and>
        blocks (data (snd (processVote e ord now a v))) = blocks (data a) \<and>
        (fst (processVote e ord now a v) = Returned None \<or>
         (\<exists>w. fst (processVote e ord now a v) = BlockedOnSend w)) \<and>
        (fastForward a = None \<or> hasOutput a \<or> Type v = VoteInit \<longrightarrow>
           fst (processVote e ord now a v) = Returned None)) \<and>
     (blocks (data a) m = Some b \<longrightarrow> processBlock e now' a b = (None, a))"
proof (intro impI conjI; (elim conjE)?)
  assume r: "restart e ords now0 a0 ns p = (Returned (), a1)" and c: "run e a1 cs = Some a"
  from r have "recordsValid e a1" by (rule restart_recordsValid)
  then have rv: "recordsValid e a" using c by (rule run_recordsValid)
  {
    assume rec: "recordedVote (data a) q t n = Some v"
    note 1 = resubmitted_vote(1) [OF rv rec]
    note 2 = resubmitted_vote(2) [OF rv rec, of ord now]
    from 1 show "sanityCheck e a v = None" "Position v = agreementID a" "checkForkVote a v = None"
      by simp_all
    from 2 show "votes (data (snd (processVote e ord now a v))) = votes (data a)"
      "blocks (data (snd (processVote e ord now a v))) = blocks (data a)"
      "fst (processVote e ord now a v) = Returned None \<or>
         (\<exists>w. fst (processVote e ord now a v) = BlockedOnSend w)"
      by blast+
    {
      assume "fastForward a = None \<or> hasOutput a \<or> Type v = VoteInit"
      with 2 show "fst (processVote e ord now a v) = Returned None" by blast
    }
  }
  {
    assume rec: "blocks (data a) m = Some b"
    from rv rec show "processBlock e now' a b = (None, a)" by (rule resubmitted_block)
  }
qed

theorem resubmission_idempotence_counterexample:
  "fst (restart testEnv (\<lambda>_. testOrder) 0 (newAgreement testEnv 0 ()) {|1, 2, 3, 4|} testPosition)
     = Returned () \<and>
   \<not> Option.is_none (run testEnv testStart quorumInPeriod3) \<and>
   agreementID quorumInPeriod3State = testPosition \<and>
   recordedVote (data quorumInPeriod3State) 3 VotePreCom 1 = Some (testVote 1 3 VotePreCom 7) \<and>
   fastForward quorumInPeriod3State = Some 3 \<and>
   fst (processVote testEnv testOrder 0 quorumInPeriod3State (testVote 1 3 VotePreCom 7))
     = BlockedOnSend 3"
  by code_simp

theorem resubmission_idempotence_witness:
  "(let v = testVote 2 1 VotePreCom 7;
        b = testBlock 1 7;
        cs = [ProcessVote testOrder 0 (testVote 1 1 VoteInit 7),
              ProcessVote testOrder 0 v, ProcessBlock 0 b];
        a = the (run testEnv testStart cs) in
      fst (restart testEnv (\<lambda>_. testOrder) 0 (newAgreement testEnv 0 ()) {|1, 2, 3, 4|} testPosition)
        = Returned () \<and>
      \<not> Option.is_none (run testEnv testStart cs) \<and>
      recordedVote (data a) 1 VotePreCom 2 = Some v \<and>
      blocks (data a) 1 = Some b \<and>
      fastForward a = None \<and>
      sanityCheck testEnv a v = None \<and> Position v = agreementID a \<and> checkForkVote a v = None \<and>
      votes (data (snd (processVote testEnv testOrder 5 a v))) = votes (data a) \<and>
      blocks (data (snd (processVote testEnv testOrder 5 a v))) = blocks (data a) \<and>
      fst (processVote testEnv testOrder 5 a v) = Returned None \<and>
      processBlock testEnv 5 a b = (None, a))"
proof -
  define v where "v = testVote 2 1 VotePreCom 7"
  define b where "b = testBlock 1 7"
  define cs where "cs = [ProcessVote testOrder 0 (testVote 1 1 VoteInit 7),
              ProcessVote testOrder 0 v, ProcessBlock 0 b]"
  define a where "a = the (run testEnv testStart cs)"
  let ?r = "restart testEnv (\<lambda>_. testOrder) 0 (newAgreement testEnv 0 ()) {|1, 2, 3, 4|} testPosition"
  have r1: "fst ?r = Returned ()" by code_simp
  then have r2: "?r = (Returned (), testStart)"
    unfolding testStart_def by (metis prod.collapse)
  have c2: "\<not> Option.is_none (run testEnv testStart cs)"
    unfolding cs_def v_def b_def by code_simp
  then have c3: "run testEnv testStart cs = Some a"
    by (simp add: a_def Option.is_none_def)
  have h: "recordedVote (data a) 1 VotePreCom 2 = Some v" "blocks (data a) 1 = Some b"
    "fastForward a = None"
    unfolding a_def cs_def v_def b_def by code_simp+
  note inst = resubmission_idempotence [of testEnv "\<lambda>_. testOrder" 0 "newAgreement testEnv 0 ()"
      "{|1, 2, 3, 4|}" testPosition testStart cs a 1 VotePreCom 2 v testOrder 5 1 b 5,
      rule_format, OF conjI [OF r2 c3]]
  note iv = inst [THEN conjunct1, rule_format, OF h(1)]
  note ib = inst [THEN conjunct2, rule_format, OF h(2)]
  from iv h(3) have p1: "sanityCheck testEnv a v = None" "Position v = agreementID a"
    "checkForkVote a v = None"
    "votes (data (snd (processVote testEnv testOrder 5 a v))) = votes (data a)"
    "blocks (data (snd (processVote testEnv testOrder 5 a v))) = blocks (data a)"
    "fst (processVote testEnv testOrder 5 a v) = Returned None"
    by simp_all
  from r1 c2 h p1 ib show ?thesis
    unfolding Let_def v_def [symmetric] b_def [symmetric] cs_def [symmetric] a_def [symmetric]
    by blast
qed

end
